theory Spec2Isabelle
  imports Main
begin

section \<open>JavaScript values used by the Node SDK\<close>

text \<open>
  The capture middleware of \<^verbatim>\<open>sdks/node/src/index.ts\<close> reads properties of the error
  through \<^verbatim>\<open>(err as any)\<close>, so their values are arbitrary JavaScript values. Numbers are
  restricted to the integers (status codes) and NaN.
\<close>

datatype js_value = JUndefined | JNull | JBool bool | JNum int | JNaN | JStr string

fun truthy :: "js_value \<Rightarrow> bool" where
  "truthy JUndefined = False"
| "truthy JNull = False"
| "truthy (JBool b) = b"
| "truthy (JNum n) = (n \<noteq> 0)"
| "truthy JNaN = False"
| "truthy (JStr s) = (s \<noteq> [])"

text \<open>\<^verbatim>\<open>a || b\<close>: the first operand when it is truthy, the second otherwise.\<close>

definition js_or :: "js_value \<Rightarrow> js_value \<Rightarrow> js_value" where
  "js_or a b = (if truthy a then a else b)"

section \<open>Path sanitization (sanitizePath)\<close>

definition is_digit :: "char \<Rightarrow> bool" where
  "is_digit c \<longleftrightarrow> c \<in> set ''0123456789''"

text \<open>\<^verbatim>\<open>[0-9a-f]\<close> under the \<^verbatim>\<open>i\<close> flag.\<close>

definition is_hex :: "char \<Rightarrow> bool" where
  "is_hex c \<longleftrightarrow> c \<in> set ''0123456789abcdefABCDEF''"

text \<open>\<^verbatim>\<open>[0-9a-f]{n}\<close> at the head of a string: the rest after exactly n hex digits.\<close>

fun hex_run :: "nat \<Rightarrow> string \<Rightarrow> string option" where
  "hex_run 0 s = Some s"
| "hex_run (Suc n) [] = None"
| "hex_run (Suc n) (c # cs) = (if is_hex c then hex_run n cs else None)"

fun dash :: "string \<Rightarrow> string option" where
  "dash [] = None"
| "dash (c # cs) = (if c = CHR ''-'' then Some cs else None)"

text \<open>
  One match of \<^verbatim>\<open>/\/[0-9a-f]{8}-[0-9a-f]{4}-[0-9a-f]{4}-[0-9a-f]{4}-[0-9a-f]{12}/gi\<close> at the
  head of the string; the result is the text after the match.
\<close>

definition match_uuid :: "string \<Rightarrow> string option" where
  "match_uuid s =
     (case s of
        [] \<Rightarrow> None
      | c # r \<Rightarrow>
          if c = CHR ''/''
          then Option.bind (Option.bind (Option.bind (Option.bind (Option.bind (Option.bind
                 (Option.bind (Option.bind (hex_run 8 r) dash) (hex_run 4)) dash) (hex_run 4))
                 dash) (hex_run 4)) dash) (hex_run 12)
          else None)"

lemma hex_run_length: "hex_run n s = Some r \<Longrightarrow> length s = n + length r"
  by (induction n s rule: hex_run.induct) (auto split: if_splits)

lemma dash_length: "dash s = Some r \<Longrightarrow> length s = Suc (length r)"
  by (cases s) (auto split: if_splits)

lemma match_uuid_length: "match_uuid s = Some r \<Longrightarrow> length s = 37 + length r"
  by (auto simp: match_uuid_def split: list.splits if_splits bind_splits
      dest!: hex_run_length dash_length)

text \<open>
  \<^verbatim>\<open>sanitized.replace(/\/[0-9a-f]{8}-...-[0-9a-f]{12}/gi, '/:id')\<close>: a global replace scans
  from the left, replaces a match where one starts and goes on after it.
\<close>

function replace_uuids :: "string \<Rightarrow> string" where
  "replace_uuids [] = []"
| "replace_uuids (c # cs) =
     (case match_uuid (c # cs) of
        Some rest \<Rightarrow> ''/:id'' @ replace_uuids rest
      | None \<Rightarrow> c # replace_uuids cs)"
  by pat_completeness auto
termination
  by (relation "measure length") (auto dest: match_uuid_length)

text \<open>
  \<^verbatim>\<open>sanitized.replace(/\/\d+/g, '/:id')\<close>: a slash followed by at least one digit; the
  greedy \<^verbatim>\<open>\d+\<close> takes the whole run of digits.
\<close>

function replace_numeric :: "string \<Rightarrow> string" where
  "replace_numeric [] = []"
| "replace_numeric (c # cs) =
     (if c = CHR ''/'' \<and> takeWhile is_digit cs \<noteq> []
      then ''/:id'' @ replace_numeric (dropWhile is_digit cs)
      else c # replace_numeric cs)"
  by pat_completeness auto
termination
  by (relation "measure length") (auto simp: length_dropWhile_le less_Suc_eq_le)

definition sanitizePath :: "string \<Rightarrow> string" where
  "sanitizePath path = replace_numeric (replace_uuids path)"

section \<open>The capture middleware (errorIngestionMiddleware)\<close>

text \<open>
  The handler is an \<^verbatim>\<open>ErrorRequestHandler\<close>, so Express may pass it any value that was
  thrown: an object or a primitive. Of an object the model keeps the properties that the
  middleware touches, as plain data properties: \<open>ingested\<close> is the own property under the
  key \<^verbatim>\<open>Symbol.for('error_ingested')\<close> (\<open>None\<close> when the object has none), which every
  middleware instance shares through the global symbol registry. \<open>integrity\<close> says whether
  properties can be added or written: an object is extensible unless
  \<^verbatim>\<open>Object.preventExtensions\<close> or \<^verbatim>\<open>Object.seal\<close> has made it non-extensible (no new
  property) or \<^verbatim>\<open>Object.freeze\<close> has frozen it (no new property, no write).
\<close>

datatype integrity = Extensible | NonExtensible | Frozen

record js_error =
  integrity :: integrity
  ingested :: "js_value option"
  err_statusCode :: js_value
  err_status :: js_value
  err_message :: string
  err_stack :: "string option"

datatype js_thrown = ErrorObject js_error | Primitive js_value

datatype js_exception = TypeError

text \<open>\<^verbatim>\<open>(err as any)[INGESTED]\<close> on an object: a missing property reads as \<^verbatim>\<open>undefined\<close>.\<close>

definition read_marker :: "js_error \<Rightarrow> js_value" where
  "read_marker err = (case ingested err of None \<Rightarrow> JUndefined | Some v \<Rightarrow> v)"

text \<open>
  \<^verbatim>\<open>(err as any)[INGESTED] = true\<close> on an object. The file is a module, so the code is
  strict: an assignment that cannot create or write the property throws a
  \<^verbatim>\<open>TypeError\<close>.
\<close>

definition write_marker :: "js_error \<Rightarrow> js_exception + js_error" where
  "write_marker err =
     (case integrity err of
        Extensible \<Rightarrow> Inr (err\<lparr>ingested := Some (JBool True)\<rparr>)
      | NonExtensible \<Rightarrow>
          (case ingested err of
             None \<Rightarrow> Inl TypeError
           | Some v \<Rightarrow> Inr (err\<lparr>ingested := Some (JBool True)\<rparr>))
      | Frozen \<Rightarrow> Inl TypeError)"

record request =
  req_method :: string
  req_path :: string
  req_originalUrl :: "string option"

record response =
  res_statusCode :: js_value

record ErrorIngestionOptions =
  apiUrl :: string
  projectKey :: string
  timeout :: "nat option"

text \<open>The \<^verbatim>\<open>ErrorEvent\<close> interface of the SDK: the body that is posted.\<close>

record ErrorEvent =
  message :: string
  stack :: "string option"
  event_method :: string
  path :: string
  status_code :: js_value
  timestamp :: string

text \<open>
  What \<^verbatim>\<open>axios.post\<close> does with the request. A promise may be rejected with any value:
  axios rejects with an \<^verbatim>\<open>AxiosError\<close> (for an HTTP error status, a network error or a
  timeout), a mock or an interceptor with anything. The message of the \<^verbatim>\<open>AxiosError\<close> is
  the library's and comes with the outcome.
\<close>

datatype send_outcome =
    Success
  | Rejection string
  | NetworkError string
  | Timeout string
  | OtherRejection js_value

datatype reason = AxiosError string | NonError js_value

datatype promise = Fulfilled | Rejected js_exception

text \<open>The observable effects, in the order in which they happen.\<close>

datatype effect =
    HttpPost string string ErrorEvent nat
  | NextCalled js_thrown
  | SendSettled send_outcome
  | ConsoleWarn string

text \<open>The awaited \<^verbatim>\<open>axios.post\<close>: \<open>Inl\<close> is the value thrown into the \<^verbatim>\<open>try\<close> block.\<close>

fun axios_post :: "send_outcome \<Rightarrow> reason + unit" where
  "axios_post Success = Inr ()"
| "axios_post (Rejection m) = Inl (AxiosError m)"
| "axios_post (NetworkError m) = Inl (AxiosError m)"
| "axios_post (Timeout m) = Inl (AxiosError m)"
| "axios_post (OtherRejection v) = Inl (NonError v)"

text \<open>
  \<^verbatim>\<open>axiosError.message\<close> inside the template string of the \<^verbatim>\<open>catch\<close> block: a property
  read on \<^verbatim>\<open>undefined\<close> or \<^verbatim>\<open>null\<close> throws, on any other value without the property it
  gives \<^verbatim>\<open>undefined\<close>.
\<close>

fun reason_message :: "reason \<Rightarrow> js_exception + string" where
  "reason_message (AxiosError m) = Inr m"
| "reason_message (NonError JUndefined) = Inl TypeError"
| "reason_message (NonError JNull) = Inl TypeError"
| "reason_message (NonError v) = Inr ''undefined''"

text \<open>
  \<^verbatim>\<open>sendErrorEvent\<close> is an async function: it runs up to the \<^verbatim>\<open>await\<close> when it is
  called (the request is issued) and resumes when the request settles.
\<close>

definition sendErrorEvent_start :: "string \<Rightarrow> string \<Rightarrow> ErrorEvent \<Rightarrow> nat \<Rightarrow> effect list" where
  "sendErrorEvent_start url key event t = [HttpPost (url @ ''/api/v1/events'') key event t]"

definition sendErrorEvent_resume :: "string option \<Rightarrow> send_outcome \<Rightarrow> effect list \<times> promise" where
  "sendErrorEvent_resume node_env outcome =
     (case axios_post outcome of
        Inr _ \<Rightarrow> ([SendSettled outcome], Fulfilled)
      | Inl error \<Rightarrow>
          if node_env = Some ''development''
          then (case reason_message error of
                  Inl exn \<Rightarrow> ([SendSettled outcome], Rejected exn)
                | Inr m \<Rightarrow>
                    ([SendSettled outcome,
                      ConsoleWarn (''[Error Ingestion SDK] Failed to send error event: '' @ m)],
                     Fulfilled))
          else ([SendSettled outcome], Fulfilled))"

text \<open>\<^verbatim>\<open>.catch(() => {})\<close> on the promise of \<^verbatim>\<open>sendErrorEvent\<close>.\<close>

fun catch_ignore :: "promise \<Rightarrow> promise" where
  "catch_ignore Fulfilled = Fulfilled"
| "catch_ignore (Rejected e) = Fulfilled"

text \<open>
  \<^verbatim>\<open>let statusCode = err.statusCode || err.status; if (!statusCode) {...}\<close>
\<close>

definition resolve_statusCode :: "js_error \<Rightarrow> response \<Rightarrow> js_value" where
  "resolve_statusCode err res =
     (let statusCode = js_or (err_statusCode err) (err_status err)
      in if \<not> truthy statusCode
         then (if truthy (res_statusCode res) \<and> res_statusCode res \<noteq> JNum 200
               then res_statusCode res else JNum 500)
         else statusCode)"

text \<open>\<^verbatim>\<open>req.originalUrl ? req.originalUrl.split('?')[0] : req.path\<close>\<close>

definition pathToSanitize :: "request \<Rightarrow> string" where
  "pathToSanitize req =
     (case req_originalUrl req of
        None \<Rightarrow> req_path req
      | Some u \<Rightarrow> if u \<noteq> [] then takeWhile (\<lambda>c. c \<noteq> CHR ''?'') u else req_path req)"

definition build_errorEvent :: "string \<Rightarrow> js_error \<Rightarrow> request \<Rightarrow> response \<Rightarrow> ErrorEvent" where
  "build_errorEvent now err req res =
     \<lparr> message = (if err_message err \<noteq> [] then err_message err else ''Unknown error''),
       stack = err_stack err,
       event_method = req_method req,
       path = sanitizePath (pathToSanitize req),
       status_code = resolve_statusCode err res,
       timestamp = now \<rparr>"

text \<open>
  One call of the handler returned by \<^verbatim>\<open>errorIngestionMiddleware(options)\<close>. The error
  object is mutable and shared with the caller, so the call returns it as it is afterwards.
  \<open>thrown\<close> is the exception with which the call ends, if it ends with one; nothing is
  caught inside the handler, so what the marker read or write throws leaves it at once.
  \<open>send_promise\<close> is the promise of the send after \<^verbatim>\<open>.catch\<close>, when a send was started.
  \<open>now\<close> is \<^verbatim>\<open>new Date().toISOString()\<close>, \<open>node_env\<close> is \<^verbatim>\<open>process.env.NODE_ENV\<close>,
  \<open>outcome\<close> is what the network does with the request later. The effects after
  \<open>NextCalled\<close> happen after the handler has returned.

  On a primitive the marker read throws (\<^verbatim>\<open>undefined\<close>, \<^verbatim>\<open>null\<close>) or finds nothing and
  the marker write throws (every other primitive, in strict code).
\<close>

record call_result =
  thrown :: "js_exception option"
  err_after :: js_thrown
  effects :: "effect list"
  send_promise :: "promise option"

definition errorIngestionMiddleware ::
  "ErrorIngestionOptions \<Rightarrow> string option \<Rightarrow> string \<Rightarrow> send_outcome \<Rightarrow>
   js_thrown \<Rightarrow> request \<Rightarrow> response \<Rightarrow> call_result" where
  "errorIngestionMiddleware options node_env now outcome err req res =
     (case err of
        Primitive v \<Rightarrow>
          \<lparr> thrown = Some TypeError, err_after = err, effects = [], send_promise = None \<rparr>
      | ErrorObject e \<Rightarrow>
          if truthy (read_marker e)
          then \<lparr> thrown = None, err_after = err, effects = [NextCalled err],
                 send_promise = None \<rparr>
          else
            (case write_marker e of
               Inl exn \<Rightarrow>
                 \<lparr> thrown = Some exn, err_after = err, effects = [], send_promise = None \<rparr>
             | Inr e' \<Rightarrow>
                 let t = (case timeout options of None \<Rightarrow> 5000 | Some n \<Rightarrow> n);
                     errorEvent = build_errorEvent now e' req res;
                     (later, p) = sendErrorEvent_resume node_env outcome
                 in \<lparr> thrown = None,
                      err_after = ErrorObject e',
                      effects = sendErrorEvent_start (apiUrl options) (projectKey options)
                                  errorEvent t
                                @ [NextCalled (ErrorObject e')] @ later,
                      send_promise = Some (catch_ignore p) \<rparr>))"

text \<open>
  Several middleware layers (or one layer reached several times) are called with the same
  error value one after the other; each call has its own options, request, response and
  network.
\<close>

record layer_call =
  lc_options :: ErrorIngestionOptions
  lc_node_env :: "string option"
  lc_now :: string
  lc_outcome :: send_outcome
  lc_req :: request
  lc_res :: response

definition call_layer :: "layer_call \<Rightarrow> js_thrown \<Rightarrow> call_result" where
  "call_layer c err =
     errorIngestionMiddleware (lc_options c) (lc_node_env c) (lc_now c) (lc_outcome c)
       err (lc_req c) (lc_res c)"

fun call_layers :: "layer_call list \<Rightarrow> js_thrown \<Rightarrow> call_result list" where
  "call_layers [] err = []"
| "call_layers (c # cs) err =
     (let r = call_layer c err in r # call_layers cs (err_after r))"

fun is_post :: "effect \<Rightarrow> bool" where
  "is_post (HttpPost u k e t) = True"
| "is_post _ = False"

fun posted_events :: "effect list \<Rightarrow> ErrorEvent list" where
  "posted_events [] = []"
| "posted_events (HttpPost u k e t # es) = e # posted_events es"
| "posted_events (x # es) = posted_events es"

fun is_next :: "effect \<Rightarrow> bool" where
  "is_next (NextCalled e) = True"
| "is_next _ = False"

text \<open>What happens once the request has settled: the settlement itself and the warning.\<close>

fun after_send :: "effect \<Rightarrow> bool" where
  "after_send (SendSettled out) = True"
| "after_send (ConsoleWarn m) = True"
| "after_send _ = False"

section \<open>The analysis pipeline\<close>

text \<open>
  The backend (the FastAPI ingestion path, the Celery application and its tasks) is not
  among the source files; only its setup guide and the dashboard that reads its results
  are. The pipeline is therefore modelled from the specification, sections 3 to 7.
\<close>

subsection \<open>Data model\<close>

text \<open>
  Modelled from the spec: the data model of section 3 (ErrorEvent, Project, TaskRecord,
  AnalysisRecord, StackFrame) and the tables that hold it; the backend's database models
  are missing.
\<close>

record error_event =
  ee_id :: nat
  ee_project :: nat
  ee_timestamp :: string
  ee_status_code :: "int option"
  ee_message :: string
  ee_stack :: "string option"
  ee_method :: string
  ee_path :: string

record repo_coordinate =
  rc_provider :: string
  rc_owner :: string
  rc_repo :: string
  rc_branch :: string

record project =
  proj_id :: nat
  proj_repo :: "repo_coordinate option"

datatype task_state = Pending | InFlight | Succeeded | RetryScheduled | Dead

record task_record =
  task_event_id :: nat
  task_attempt :: nat
  next_eligible :: nat
  tstate :: task_state

record analysis_record =
  error_event_id :: nat
  analysis_text :: string
  model :: string
  confidence :: "string option"
  has_source_code :: bool
  created_at :: string

record stack_frame =
  frame_file :: string
  frame_line :: nat
  frame_symbol :: "string option"

record database =
  db_events :: "error_event list"
  db_projects :: "project list"
  db_analyses :: "analysis_record list"

text \<open>
  Modelled from the spec: the reads of the shared tables that the workflow of section 4.4
  makes (fetch the ErrorEvent, the repository coordinate of its Project, the
  AnalysisRecords of an event); the backend's queries are missing.
\<close>

definition lookup_event :: "database \<Rightarrow> nat \<Rightarrow> error_event option" where
  "lookup_event db i = find (\<lambda>e. ee_id e = i) (db_events db)"

definition lookup_repo :: "database \<Rightarrow> nat \<Rightarrow> repo_coordinate option" where
  "lookup_repo db p =
     (case find (\<lambda>x. proj_id x = p) (db_projects db) of
        None \<Rightarrow> None
      | Some x \<Rightarrow> proj_repo x)"

definition analyses_for :: "database \<Rightarrow> nat \<Rightarrow> analysis_record list" where
  "analyses_for db i = filter (\<lambda>a. error_event_id a = i) (db_analyses db)"

definition has_analysis :: "database \<Rightarrow> nat \<Rightarrow> bool" where
  "has_analysis db i \<longleftrightarrow> analyses_for db i \<noteq> []"

text \<open>
  Modelled from the spec: the read surface \<^verbatim>\<open>getAnalysis(error_event_id)\<close> of section 6;
  the backend route that serves it is missing.
\<close>

definition getAnalysis :: "database \<Rightarrow> nat \<Rightarrow> analysis_record option" where
  "getAnalysis db i = find (\<lambda>a. error_event_id a = i) (db_analyses db)"

subsection \<open>Trigger Policy and enqueue\<close>

text \<open>
  Modelled from the spec: the Trigger Policy of section 4.1, \<^verbatim>\<open>decide(event)\<close>; the
  ingestion path that calls it is missing. It enqueues only when the status code is not
  null and at least 500.
\<close>

definition decide :: "error_event \<Rightarrow> bool" where
  "decide event = (case ee_status_code event of None \<Rightarrow> False | Some c \<Rightarrow> 500 \<le> c)"

text \<open>
  Modelled from the spec: the ingestion endpoint stores the posted status code, a nullable
  integer; the endpoint is missing.
\<close>

fun stored_status :: "js_value \<Rightarrow> int option" where
  "stored_status (JNum n) = Some n"
| "stored_status _ = None"

text \<open>
  Modelled from the spec: the Work Queue of section 4.2 as the ingestion path sees it; the
  broker accepts a task or cannot be reached.
\<close>

datatype broker_reply = Accepted | Unavailable

datatype enqueue_error = BrokerError

record pipeline =
  pl_db :: database
  pl_queue :: "task_record list"
  pl_log :: "string list"

text \<open>
  Modelled from the spec: the TaskRecord created at enqueue time (sections 3 and 4.5). The
  attempt counter is the number of the attempt that comes next, so a new task has 1.
\<close>

definition new_task :: "error_event \<Rightarrow> task_record" where
  "new_task event =
     \<lparr> task_event_id = ee_id event, task_attempt = 1, next_eligible = 0, tstate = Pending \<rparr>"

text \<open>
  Modelled from the spec: \<^verbatim>\<open>enqueue(taskRecord)\<close> on the channel \<^verbatim>\<open>ai_analysis\<close>
  (section 4.2); the broker may be unreachable.
\<close>

fun enqueue :: "broker_reply \<Rightarrow> task_record \<Rightarrow> task_record list \<Rightarrow> enqueue_error + task_record list" where
  "enqueue Accepted t q = Inr (q @ [t])"
| "enqueue Unavailable t q = Inl BrokerError"

text \<open>
  Modelled from the spec: \<^verbatim>\<open>onErrorStored(event)\<close> (sections 4.1 and 6): on enqueue a
  TaskRecord is created and handed to the Work Queue; an enqueue failure is logged and
  swallowed.
\<close>

definition onErrorStored :: "broker_reply \<Rightarrow> error_event \<Rightarrow> pipeline \<Rightarrow> pipeline" where
  "onErrorStored broker event p =
     (if decide event
      then (case enqueue broker (new_task event) (pl_queue p) of
              Inr q \<Rightarrow> p\<lparr>pl_queue := q\<rparr>
            | Inl e \<Rightarrow> p\<lparr>pl_log := pl_log p @ [''enqueue failed'']\<rparr>)
      else p)"

text \<open>
  Modelled from the spec: the ingestion path stores the event, then consults the Trigger
  Policy (section 2, control flow).
\<close>

definition store_event :: "error_event \<Rightarrow> pipeline \<Rightarrow> pipeline" where
  "store_event event p = p\<lparr>pl_db := (pl_db p)\<lparr>db_events := db_events (pl_db p) @ [event]\<rparr>\<rparr>"

definition ingest :: "broker_reply \<Rightarrow> error_event \<Rightarrow> pipeline \<Rightarrow> pipeline" where
  "ingest broker event p = onErrorStored broker event (store_event event p)"

subsection \<open>Analysis workflow\<close>

text \<open>
  Modelled from the spec: the results of \<^verbatim>\<open>fetchSnippet\<close> and \<^verbatim>\<open>analyze\<close> (section 6); the
  fetcher and the engine client are missing.
\<close>

datatype fetch_result = Snippet string | NotFound | AccessDenied | FetchNetworkError

datatype engine_error = EngineError

record engine_reply =
  er_text :: string
  er_model :: string
  er_confidence :: "string option"

text \<open>
  Modelled from the spec: the external collaborators as one attempt sees them (section 6): the Stack Trace
  Interpreter, the Source Repository Fetcher with its bound on the number of frames, the
  Analysis Engine, the availability of the database and the clock.
\<close>

record world =
  parse_stack_trace :: "string \<Rightarrow> stack_frame list"
  in_repository :: "repo_coordinate \<Rightarrow> stack_frame \<Rightarrow> bool"
  max_frames :: nat
  fetchSnippet :: "repo_coordinate \<Rightarrow> stack_frame \<Rightarrow> fetch_result"
  analyze :: "string \<Rightarrow> stack_frame list \<Rightarrow> string list \<Rightarrow> engine_error + engine_reply"
  database_up :: bool
  clock :: string

datatype outcome = AckNoop | AckSuccess | Failed

text \<open>Modelled from the spec: step 3 of section 4.4; an absent trace gives no frames.\<close>

definition frames_of :: "world \<Rightarrow> error_event \<Rightarrow> stack_frame list" where
  "frames_of w event = (case ee_stack event of None \<Rightarrow> [] | Some s \<Rightarrow> parse_stack_trace w s)"

text \<open>
  Modelled from the spec: step 4 of section 4.4. The frames whose snippets are fetched are
  those that map to a file inside the repository, at most \<open>max_frames\<close> of them; a project
  without a repository coordinate gives none.
\<close>

definition frames_to_fetch :: "world \<Rightarrow> database \<Rightarrow> error_event \<Rightarrow> (repo_coordinate \<times> stack_frame) list" where
  "frames_to_fetch w db event =
     (case lookup_repo db (ee_project event) of
        None \<Rightarrow> []
      | Some rc \<Rightarrow>
          map (\<lambda>f. (rc, f)) (take (max_frames w) (filter (in_repository w rc) (frames_of w event))))"

fun snippet_of :: "fetch_result \<Rightarrow> string option" where
  "snippet_of (Snippet t) = Some t"
| "snippet_of _ = None"

text \<open>
  Modelled from the spec: a fetch that fails is skipped, that frame contributes no snippet
  (step 4 of section 4.4).
\<close>

definition fetch_snippets :: "world \<Rightarrow> database \<Rightarrow> error_event \<Rightarrow> string list" where
  "fetch_snippets w db event =
     List.map_filter (\<lambda>(rc, f). snippet_of (fetchSnippet w rc f)) (frames_to_fetch w db event)"

text \<open>Modelled from the spec: steps 3 to 5 of section 4.4.\<close>

definition analyse_event :: "world \<Rightarrow> database \<Rightarrow> error_event \<Rightarrow> outcome + analysis_record" where
  "analyse_event w db event =
     (let frames = frames_of w event;
          snippets = fetch_snippets w db event
      in case analyze w (ee_message event) frames snippets of
           Inl e \<Rightarrow> Inl Failed
         | Inr reply \<Rightarrow>
             Inr \<lparr> error_event_id = ee_id event,
                   analysis_text = er_text reply,
                   model = er_model reply,
                   confidence = er_confidence reply,
                   has_source_code = (snippets \<noteq> []),
                   created_at = clock w \<rparr>)"

text \<open>
  Modelled from the spec: steps 1 and 2 of section 4.4 (idempotency check, threshold
  re-check) before the analysis. A task whose event cannot be fetched fails.
\<close>

definition prepare :: "world \<Rightarrow> database \<Rightarrow> task_record \<Rightarrow> outcome + analysis_record" where
  "prepare w db t =
     (case lookup_event db (task_event_id t) of
        None \<Rightarrow> Inl Failed
      | Some event \<Rightarrow>
          if has_analysis db (ee_id event) then Inl AckNoop
          else if \<not> decide event then Inl AckNoop
          else analyse_event w db event)"

text \<open>
  Modelled from the spec: step 6 of section 4.4 and section 5. The uniqueness constraint on
  \<open>error_event_id\<close> makes the insert that loses the race a no-op; a database error fails
  the attempt.
\<close>

definition persist :: "world \<Rightarrow> database \<Rightarrow> analysis_record \<Rightarrow> database \<times> outcome" where
  "persist w db r =
     (if \<not> database_up w then (db, Failed)
      else if has_analysis db (error_event_id r) then (db, AckNoop)
      else (db\<lparr>db_analyses := db_analyses db @ [r]\<rparr>, AckSuccess))"

text \<open>
  Modelled from the spec: within a task the steps are sequential, across workers there is
  no order (section 5). A worker is between two accesses to the database: it has dequeued a task, or it holds
  the record it is about to persist, or it has finished the attempt.
\<close>

datatype stage = Dequeued task_record | Prepared analysis_record | Finished outcome

fun worker_step :: "world \<Rightarrow> database \<Rightarrow> stage \<Rightarrow> database \<times> stage" where
  "worker_step w db (Dequeued t) =
     (case prepare w db t of Inl out \<Rightarrow> (db, Finished out) | Inr r \<Rightarrow> (db, Prepared r))"
| "worker_step w db (Prepared r) = (case persist w db r of (db', out) \<Rightarrow> (db', Finished out))"
| "worker_step w db (Finished out) = (db, Finished out)"

record worker =
  wk_world :: world
  wk_stage :: stage

text \<open>
  Modelled from the spec: the Worker Pool (sections 4.3 and 5): workers share nothing but the database. A schedule
  names the worker that makes the next step, so every interleaving is a schedule.
\<close>

definition pool_step :: "nat \<Rightarrow> database \<times> worker list \<Rightarrow> database \<times> worker list" where
  "pool_step k s =
     (case s of (db, ws) \<Rightarrow>
        if k < length ws
        then (case worker_step (wk_world (ws ! k)) db (wk_stage (ws ! k)) of
                (db', st) \<Rightarrow> (db', ws[k := (ws ! k)\<lparr>wk_stage := st\<rparr>]))
        else (db, ws))"

definition run_schedule :: "nat list \<Rightarrow> database \<times> worker list \<Rightarrow> database \<times> worker list" where
  "run_schedule sched s = foldl (\<lambda>s k. pool_step k s) s sched"

fun finished :: "stage \<Rightarrow> bool" where
  "finished (Finished out) = True"
| "finished _ = False"

subsection \<open>Retry and backoff\<close>






text \<open>
  Modelled from the spec: one attempt of one worker, steps 1 to 7 of section 4.4 run to
  their end without interference.
\<close>

definition run_attempt :: "world \<Rightarrow> database \<Rightarrow> task_record \<Rightarrow> database \<times> outcome" where
  "run_attempt w db t =
     (case prepare w db t of
        Inl out \<Rightarrow> (db, out)
      | Inr r \<Rightarrow> persist w db r)"



section \<open>The dashboard: API token and the error-detail page\<close>

text \<open>
  \<^verbatim>\<open>localStorage\<close> maps keys to strings. The functions of \<^verbatim>\<open>frontend/lib/api.ts\<close> touch
  it only in the browser: \<open>in_browser\<close> is \<^verbatim>\<open>typeof window !== 'undefined'\<close>.
\<close>

type_synonym storage = "string \<rightharpoonup> string"

definition API_TOKEN_KEY :: string where
  "API_TOKEN_KEY = ''debug_ai_api_token''"

definition getApiToken :: "bool \<Rightarrow> storage \<Rightarrow> string option" where
  "getApiToken in_browser localStorage =
     (if \<not> in_browser then None else localStorage API_TOKEN_KEY)"

definition setApiToken :: "bool \<Rightarrow> string \<Rightarrow> storage \<Rightarrow> storage" where
  "setApiToken in_browser token localStorage =
     (if in_browser then localStorage(API_TOKEN_KEY \<mapsto> token) else localStorage)"

definition clearApiToken :: "bool \<Rightarrow> storage \<Rightarrow> storage" where
  "clearApiToken in_browser localStorage =
     (if in_browser then localStorage(API_TOKEN_KEY := None) else localStorage)"

text \<open>
  The promise that \<^verbatim>\<open>fetchData\<close> of the error-detail page (\<^verbatim>\<open>unnamed/part_003\<close>) awaits
  before it fetches: resolved at once when the token is found, otherwise waiting for a
  timer of the given number of milliseconds or for the named event, whichever is first.
\<close>

datatype wait_state = Resolved | Waiting nat string

definition wait_for_token :: "string \<Rightarrow> storage \<Rightarrow> wait_state" where
  "wait_for_token key localStorage =
     (case localStorage key of
        None \<Rightarrow> Waiting 2000 ''user-synced''
      | Some token \<Rightarrow> if token \<noteq> [] then Resolved else Waiting 2000 ''user-synced'')"

definition ErrorDetailPage_wait :: "storage \<Rightarrow> wait_state" where
  "ErrorDetailPage_wait localStorage = wait_for_token ''stackwise_api_token'' localStorage"

text \<open>What happens in the browser afterwards: time passes, events are dispatched.\<close>

datatype browser_event = Elapsed nat | Dispatched string

fun wait_step :: "wait_state \<Rightarrow> browser_event \<Rightarrow> wait_state" where
  "wait_step Resolved e = Resolved"
| "wait_step (Waiting d name) (Elapsed n) = (if d \<le> n then Resolved else Waiting (d - n) name)"
| "wait_step (Waiting d name) (Dispatched x) = (if x = name then Resolved else Waiting d name)"

text \<open>
  \<^verbatim>\<open>api.getErrorEventWithAnalysis\<close> is called once the awaited promise has resolved.
\<close>

definition fetch_issued :: "storage \<Rightarrow> browser_event list \<Rightarrow> bool" where
  "fetch_issued localStorage evs \<longleftrightarrow>
     foldl wait_step (ErrorDetailPage_wait localStorage) evs = Resolved"

fun elapsed :: "browser_event list \<Rightarrow> nat" where
  "elapsed [] = 0"
| "elapsed (Elapsed n # evs) = n + elapsed evs"
| "elapsed (Dispatched x # evs) = elapsed evs"

section \<open>Predicates and scenarios of the statements\<close>

text \<open>
  The definitions below are not part of the program: they say what the statements are
  about (the shape of a path, the invariants of the pipeline) and fix the concrete inputs
  on which the program is run.
\<close>

text \<open>
  A string stops a match when it is empty or begins with a slash: neither regular
  expression reads past such a point.
\<close>

definition stops :: "string \<Rightarrow> bool" where
  "stops rest \<longleftrightarrow> (case rest of [] \<Rightarrow> True | c # cs \<Rightarrow> c = CHR ''/'')"

text \<open>
  Groups of hex digits of the given lengths, separated by dashes. A UUID-shaped string has
  the groups 8-4-4-4-12.
\<close>

fun hex_groups :: "nat list \<Rightarrow> string \<Rightarrow> bool" where
  "hex_groups [] s = False"
| "hex_groups [n] s = (length s = n \<and> list_all is_hex s)"
| "hex_groups (n # ns) s =
     (n < length s \<and> list_all is_hex (take n s) \<and> s ! n = CHR ''-'' \<and>
      hex_groups ns (drop (Suc n) s))"

definition uuid_shaped :: "string \<Rightarrow> bool" where
  "uuid_shaped s = hex_groups [8, 4, 4, 4, 12] s"

text \<open>The chain of groups that \<^const>\<open>match_uuid\<close> runs, for any list of group lengths.\<close>

fun parse_groups :: "nat list \<Rightarrow> string \<Rightarrow> string option" where
  "parse_groups [] s = None"
| "parse_groups [n] s = hex_run n s"
| "parse_groups (n # ns) s = Option.bind (Option.bind (hex_run n s) dash) (parse_groups ns)"

text \<open>The length of a string of such groups.\<close>

definition total :: "nat list \<Rightarrow> nat" where
  "total ns = sum_list ns + (length ns - 1)"

text \<open>A path is a sequence of segments, each led by a slash.\<close>

definition join_segments :: "string list \<Rightarrow> string" where
  "join_segments segs = concat (map (\<lambda>s. CHR ''/'' # s) segs)"

text \<open>What each of the two replacements does to one segment.\<close>

definition seg_uuid :: "string \<Rightarrow> string" where
  "seg_uuid s = (if uuid_shaped (take 36 s) then '':id'' @ drop 36 s else s)"

definition seg_num :: "string \<Rightarrow> string" where
  "seg_num s = (if takeWhile is_digit s \<noteq> [] then '':id'' @ dropWhile is_digit s else s)"

text \<open>
  What the claim says of one segment: a leading UUID is replaced by \<^verbatim>\<open>:id\<close>, and
  otherwise a leading run of digits is.
\<close>

definition sanitize_segment :: "string \<Rightarrow> string" where
  "sanitize_segment s =
     (if uuid_shaped (take 36 s) then '':id'' @ drop 36 s
      else if takeWhile is_digit s \<noteq> [] then '':id'' @ dropWhile is_digit s
      else s)"

text \<open>The inputs of the SDK's own tests, used to run the middleware on concrete values.\<close>

definition req1 :: request where
  "req1 = \<lparr> req_method = ''GET'', req_path = ''/users/123'',
            req_originalUrl = Some ''/users/123/orders/550e8400-e29b-41d4-a716-446655440000?page=1&limit=10'' \<rparr>"

definition err1 :: js_error where
  "err1 = \<lparr> integrity = Extensible, ingested = None, err_statusCode = JUndefined,
            err_status = JUndefined, err_message = ''Test error'', err_stack = None \<rparr>"

text \<open>
  An object can take the marker when the assignment can create the property or write it.
\<close>

definition markable :: "js_error \<Rightarrow> bool" where
  "markable err \<longleftrightarrow>
     integrity err = Extensible \<or> (integrity err = NonExtensible \<and> ingested err \<noteq> None)"

definition opts1 :: ErrorIngestionOptions where
  "opts1 = \<lparr> apiUrl = ''https://api.example.com'', projectKey = ''test-project'',
             timeout = Some 5000 \<rparr>"

definition res1 :: response where
  "res1 = \<lparr> res_statusCode = JNum 200 \<rparr>"

definition layer1 :: layer_call where
  "layer1 = \<lparr> lc_options = opts1, lc_node_env = None, lc_now = ''2024-01-15T12:00:00Z'',
       lc_outcome = Success, lc_req = req1, lc_res = res1 \<rparr>"

text \<open>The uniqueness of AnalysisRecords on \<open>error_event_id\<close> (section 3).\<close>

definition unique_analyses :: "database \<Rightarrow> bool" where
  "unique_analyses db \<longleftrightarrow> distinct (map error_event_id (db_analyses db))"

text \<open>
  A dependable world: the database is reachable and the Analysis Engine replies, whatever
  it is asked.
\<close>

definition dependable :: "world \<Rightarrow> bool" where
  "dependable w \<longleftrightarrow> database_up w \<and> (\<forall>m fs ss. \<exists>reply. analyze w m fs ss = Inr reply)"

text \<open>
  The invariant of duplicate delivery: every worker of the pool works on the task \<open>t\<close> of
  the event \<open>i\<close>; one that has finished has seen or written the analysis of the event.
\<close>

definition on_task :: "nat \<Rightarrow> task_record \<Rightarrow> database \<Rightarrow> worker \<Rightarrow> bool" where
  "on_task i t db wk \<longleftrightarrow>
     dependable (wk_world wk) \<and>
     (case wk_stage wk of
        Dequeued t' \<Rightarrow> t' = t
      | Prepared r \<Rightarrow> error_event_id r = i
      | Finished out \<Rightarrow> has_analysis db i)"

text \<open>How far a worker has come in its attempt.\<close>

fun stage_rank :: "stage \<Rightarrow> nat" where
  "stage_rank (Dequeued t) = 0"
| "stage_rank (Prepared r) = 1"
| "stage_rank (Finished out) = 2"

text \<open>The scenario of section 8: a 500 with a fetchable frame, and a 404.\<close>

definition event500 :: error_event where
  "event500 = \<lparr> ee_id = 7, ee_project = 1, ee_timestamp = ''2024-01-15T12:00:00Z'',
      ee_status_code = Some 500, ee_message = ''DB timeout'',
      ee_stack = Some ''at f (a.js:10)'', ee_method = ''GET'', ee_path = ''/api/users'' \<rparr>"

definition event404 :: error_event where
  "event404 = event500\<lparr> ee_id := 8, ee_status_code := Some 404 \<rparr>"

definition repo0 :: repo_coordinate where
  "repo0 = \<lparr> rc_provider = ''github'', rc_owner = ''acme'', rc_repo = ''shop'',
             rc_branch = ''main'' \<rparr>"

definition frame0 :: stack_frame where
  "frame0 = \<lparr> frame_file = ''a.js'', frame_line = 10, frame_symbol = Some ''f'' \<rparr>"

definition db0 :: database where
  "db0 = \<lparr> db_events = [event500, event404],
           db_projects = [\<lparr> proj_id = 1, proj_repo = Some repo0 \<rparr>],
           db_analyses = [] \<rparr>"

definition reply0 :: engine_reply where
  "reply0 = \<lparr> er_text = ''The query timed out'', er_model = ''gpt'', er_confidence = None \<rparr>"

definition world0 :: world where
  "world0 = \<lparr> parse_stack_trace = (\<lambda>s. [frame0]),
              in_repository = (\<lambda>rc f. True),
              max_frames = 5,
              fetchSnippet = (\<lambda>rc f. Snippet ''function f() {}''),
              analyze = (\<lambda>m fs ss. Inr reply0),
              database_up = True,
              clock = ''2024-01-15T12:00:05Z'' \<rparr>"

definition record0 :: analysis_record where
  "record0 = \<lparr> error_event_id = 7, analysis_text = ''The query timed out'', model = ''gpt'',
       confidence = None, has_source_code = True, created_at = ''2024-01-15T12:00:05Z'' \<rparr>"

text \<open>A worker that holds a record for the event \<open>i\<close>, ready to persist it.\<close>

fun prepared_for :: "nat \<Rightarrow> stage \<Rightarrow> bool" where
  "prepared_for i (Prepared r) = (error_event_id r = i)"
| "prepared_for i _ = False"

text \<open>An empty queue on the scenario's database.\<close>

definition pipeline0 :: pipeline where
  "pipeline0 = \<lparr> pl_db = db0, pl_queue = [], pl_log = [] \<rparr>"

text \<open>At least one of the frames whose snippet is fetched gives a snippet.\<close>

definition fetch_succeeded :: "world \<Rightarrow> database \<Rightarrow> error_event \<Rightarrow> bool" where
  "fetch_succeeded w db event \<longleftrightarrow>
     list_ex (\<lambda>(rc, f). case fetchSnippet w rc f of Snippet text \<Rightarrow> True | _ \<Rightarrow> False)
       (frames_to_fetch w db event)"

text \<open>The second scenario of section 8: the fetch of the only frame is denied.\<close>

definition world_denied :: world where
  "world_denied = world0\<lparr> fetchSnippet := (\<lambda>rc f. AccessDenied) \<rparr>"




section \<open>Path sanitization: what the two replacements do to each segment\<close>

lemma not_hex_slash: "\<not> is_hex CHR ''/''"
  by (simp add: is_hex_def)

lemma not_digit_slash: "\<not> is_digit CHR ''/''"
  by (simp add: is_digit_def)

lemma not_digit_colon: "\<not> is_digit CHR '':''"
  by (simp add: is_digit_def)

lemma hex_run_append:
  "stops rest \<Longrightarrow> hex_run n (s @ rest) = map_option (\<lambda>r. r @ rest) (hex_run n s)"
  by (induction n s rule: hex_run.induct)
     (auto simp: stops_def not_hex_slash split: list.splits)

lemma dash_append:
  "stops rest \<Longrightarrow> dash (s @ rest) = map_option (\<lambda>r. r @ rest) (dash s)"
  by (cases s) (auto simp: stops_def split: list.splits)

lemma bind_append:
  assumes "p (s @ rest) = map_option (\<lambda>r. r @ rest) (p s)"
    and "\<And>r. q (r @ rest) = map_option (\<lambda>r. r @ rest) (q r)"
  shows "Option.bind (p (s @ rest)) q = map_option (\<lambda>r. r @ rest) (Option.bind (p s) q)"
  using assms by (cases "p s") auto

lemma match_uuid_append:
  assumes "stops rest"
  shows "match_uuid (CHR ''/'' # s @ rest) = map_option (\<lambda>r. r @ rest) (match_uuid (CHR ''/'' # s))"
  unfolding match_uuid_def list.case if_True
  using assms
  by (intro bind_append hex_run_append dash_append refl | simp)+

lemma hex_run_suffix: "hex_run n s = Some r \<Longrightarrow> set r \<subseteq> set s"
  by (induction n s rule: hex_run.induct) (auto split: if_splits)

lemma dash_suffix: "dash s = Some r \<Longrightarrow> set r \<subseteq> set s"
  by (cases s) (auto split: if_splits)

lemma match_uuid_suffix: "match_uuid (c # s) = Some r \<Longrightarrow> set r \<subseteq> set s"
  by (fastforce simp: match_uuid_def split: if_splits bind_splits
      dest!: hex_run_suffix dash_suffix)

lemma match_uuid_not_slash: "c \<noteq> CHR ''/'' \<Longrightarrow> match_uuid (c # s) = None"
  by (simp add: match_uuid_def)

lemma replace_uuids_no_slash:
  "CHR ''/'' \<notin> set p \<Longrightarrow> replace_uuids (p @ rest) = p @ replace_uuids rest"
  by (induction p) (auto simp: match_uuid_not_slash)

lemma hex_run_eq:
  "hex_run n s = (if n \<le> length s \<and> list_all is_hex (take n s) then Some (drop n s) else None)"
  by (induction n s rule: hex_run.induct) auto

lemma dash_eq:
  "dash s = (if s \<noteq> [] \<and> s ! 0 = CHR ''-'' then Some (drop 1 s) else None)"
  by (cases s) auto

lemma parse_groups_eq:
  "ns \<noteq> [] \<Longrightarrow> parse_groups ns s =
     (if total ns \<le> length s \<and> hex_groups ns (take (total ns) s)
      then Some (drop (total ns) s) else None)"
proof (induction ns arbitrary: s)
  case Nil
  then show ?case by simp
next
  case (Cons n ns)
  show ?case
  proof (cases ns)
    case Nil
    then show ?thesis by (auto simp: hex_run_eq total_def)
  next
    case (Cons m ms)
    have T: "total (n # ns) = Suc n + total ns"
      by (simp add: total_def Cons)
    have IH: "parse_groups ns t =
       (if total ns \<le> length t \<and> hex_groups ns (take (total ns) t)
        then Some (drop (total ns) t) else None)" for t
      using Cons.IH [of t] Cons by simp
    have unf: "parse_groups (n # ns) s = Option.bind (Option.bind (hex_run n s) dash) (parse_groups ns)"
      by (simp add: Cons)
    have hg: "hex_groups (n # ns) t =
       (n < length t \<and> list_all is_hex (take n t) \<and> t ! n = CHR ''-'' \<and>
        hex_groups ns (drop (Suc n) t))" for t
      by (simp add: Cons)
    show ?thesis
    proof (cases "n < length s \<and> list_all is_hex (take n s) \<and> s ! n = CHR ''-''")
      case True
      then have "Option.bind (hex_run n s) dash = Some (drop (Suc n) s)"
        by (simp add: hex_run_eq dash_eq)
      then have 1: "parse_groups (n # ns) s = parse_groups ns (drop (Suc n) s)"
        by (simp add: unf)
      show ?thesis
        unfolding 1 IH T hg using True
        by (auto simp: drop_take min_def add.commute)
    next
      case False
      then have "Option.bind (hex_run n s) dash = None"
        by (auto simp: hex_run_eq dash_eq)
      then have 1: "parse_groups (n # ns) s = None"
        by (simp add: unf)
      show ?thesis
        unfolding 1 T hg using False
        by (auto simp: min_def)
    qed
  qed
qed

lemma parse_groups_unfold:
  "parse_groups (n # m # ms) = (\<lambda>s. Option.bind (Option.bind (hex_run n s) dash) (parse_groups (m # ms)))"
  "parse_groups [n] = hex_run n"
  by (rule ext, simp)+

lemma match_uuid_parse: "match_uuid (CHR ''/'' # s) = parse_groups [8,4,4,4,12] s"
  by (simp add: match_uuid_def bind_assoc parse_groups_unfold)

lemma match_uuid_eq:
  "match_uuid (CHR ''/'' # s) =
     (if uuid_shaped (take 36 s) then Some (drop 36 s) else None)"
proof -
  have t: "total [8,4,4,4,12] = 36" by (simp add: total_def)
  have len: "36 \<le> length s" if "hex_groups [8,4,4,4,12] (take 36 s)"
    using that by auto
  have "parse_groups [8,4,4,4,12] s =
     (if total [8,4,4,4,12] \<le> length s \<and> hex_groups [8,4,4,4,12] (take (total [8,4,4,4,12]) s)
      then Some (drop (total [8,4,4,4,12]) s) else None)"
    by (rule parse_groups_eq) simp
  also have "\<dots> = (if hex_groups [8,4,4,4,12] (take 36 s) then Some (drop 36 s) else None)"
    unfolding t using len by (simp only: split: if_split) blast
  finally show ?thesis
    by (simp only: match_uuid_parse uuid_shaped_def)
qed

lemma stops_join: "stops (join_segments segs)"
  by (cases segs) (simp_all add: stops_def join_segments_def)

lemma replace_uuids_segment:
  assumes "CHR ''/'' \<notin> set s" "stops rest"
  shows "replace_uuids (CHR ''/'' # s @ rest) = CHR ''/'' # seg_uuid s @ replace_uuids rest"
proof (cases "uuid_shaped (take 36 s)")
  case True
  then have m: "match_uuid (CHR ''/'' # s @ rest) = Some (drop 36 s @ rest)"
    by (simp only: match_uuid_append [OF assms(2)]) (simp add: match_uuid_eq)
  have "CHR ''/'' \<notin> set (drop 36 s)"
    using assms(1) by (meson in_set_dropD)
  then show ?thesis
    using True by (simp add: m seg_uuid_def replace_uuids_no_slash)
next
  case False
  then have m: "match_uuid (CHR ''/'' # s @ rest) = None"
    by (simp only: match_uuid_append [OF assms(2)]) (simp add: match_uuid_eq)
  show ?thesis
    using False assms(1) by (simp add: m seg_uuid_def replace_uuids_no_slash)
qed

lemma replace_uuids_join:
  "\<forall>s\<in>set segs. CHR ''/'' \<notin> set s \<Longrightarrow>
   replace_uuids (join_segments segs) = join_segments (map seg_uuid segs)"
proof (induction segs)
  case Nil
  then show ?case by (simp add: join_segments_def)
next
  case (Cons s segs)
  have "replace_uuids (CHR ''/'' # s @ join_segments segs) =
        CHR ''/'' # seg_uuid s @ replace_uuids (join_segments segs)"
    using Cons.prems by (intro replace_uuids_segment stops_join) simp
  with Cons show ?case by (simp add: join_segments_def)
qed

lemma takeWhile_digit_append:
  "stops rest \<Longrightarrow> takeWhile is_digit (s @ rest) = takeWhile is_digit s"
  by (induction s) (auto simp: stops_def not_digit_slash split: list.splits)

lemma dropWhile_digit_append:
  "stops rest \<Longrightarrow> dropWhile is_digit (s @ rest) = dropWhile is_digit s @ rest"
  by (induction s) (auto simp: stops_def not_digit_slash split: list.splits)

lemma replace_numeric_no_slash:
  "CHR ''/'' \<notin> set p \<Longrightarrow> replace_numeric (p @ rest) = p @ replace_numeric rest"
  by (induction p) auto

lemma replace_numeric_segment:
  assumes "CHR ''/'' \<notin> set s" "stops rest"
  shows "replace_numeric (CHR ''/'' # s @ rest) = CHR ''/'' # seg_num s @ replace_numeric rest"
proof -
  have "CHR ''/'' \<notin> set (dropWhile is_digit s)"
    using assms(1) by (meson set_dropWhileD)
  then show ?thesis
    using assms
    by (simp add: takeWhile_digit_append dropWhile_digit_append seg_num_def
        replace_numeric_no_slash)
qed

lemma replace_numeric_join:
  "\<forall>s\<in>set segs. CHR ''/'' \<notin> set s \<Longrightarrow>
   replace_numeric (join_segments segs) = join_segments (map seg_num segs)"
proof (induction segs)
  case Nil
  then show ?case by (simp add: join_segments_def)
next
  case (Cons s segs)
  have "replace_numeric (CHR ''/'' # s @ join_segments segs) =
        CHR ''/'' # seg_num s @ replace_numeric (join_segments segs)"
    using Cons.prems by (intro replace_numeric_segment stops_join) simp
  with Cons show ?case by (simp add: join_segments_def)
qed

lemma seg_uuid_no_slash: "CHR ''/'' \<notin> set s \<Longrightarrow> CHR ''/'' \<notin> set (seg_uuid s)"
  by (auto simp: seg_uuid_def dest: in_set_dropD)

lemma seg_num_seg_uuid: "seg_num (seg_uuid s) = sanitize_segment s"
  by (simp add: seg_num_def seg_uuid_def sanitize_segment_def not_digit_colon)

lemma seg_num_o_seg_uuid: "seg_num \<circ> seg_uuid = sanitize_segment"
  by (rule ext) (simp add: seg_num_seg_uuid)

lemma sanitizePath_segments:
  assumes "CHR ''/'' \<notin> set p0" "\<forall>s\<in>set segs. CHR ''/'' \<notin> set s"
  shows "sanitizePath (p0 @ join_segments segs) = p0 @ join_segments (map sanitize_segment segs)"
proof -
  have "\<forall>s\<in>set (map seg_uuid segs). CHR ''/'' \<notin> set s"
    using assms(2) by (simp add: seg_uuid_no_slash)
  then have "replace_numeric (join_segments (map seg_uuid segs)) =
             join_segments (map seg_num (map seg_uuid segs))"
    by (rule replace_numeric_join)
  then show ?thesis
    using assms
    by (simp add: sanitizePath_def replace_uuids_no_slash replace_uuids_join
        replace_numeric_no_slash seg_num_o_seg_uuid)
qed

lemma uuid_segment: "uuid_shaped s \<Longrightarrow> sanitize_segment s = '':id''"
proof -
  assume u: "uuid_shaped s"
  then have "length s = 36" by (auto simp: uuid_shaped_def)
  with u show ?thesis by (simp add: sanitize_segment_def)
qed

lemma digits_segment: "s \<noteq> [] \<Longrightarrow> list_all is_digit s \<Longrightarrow> \<not> uuid_shaped (take 36 s) \<Longrightarrow> sanitize_segment s = '':id''"
  by (cases s) (auto simp: sanitize_segment_def list_all_iff)

lemma digits_not_uuid:
  assumes "list_all is_digit s"
  shows "\<not> uuid_shaped (take 36 s)"
proof
  assume "uuid_shaped (take 36 s)"
  then have "8 < length s" and "s ! 8 = CHR ''-''"
    by (auto simp: uuid_shaped_def)
  with assms have "is_digit CHR ''-''"
    by (metis list_all_length)
  then show False by (simp add: is_digit_def)
qed

lemma path_decomposes:
  "\<exists>p0 segs. CHR ''/'' \<notin> set p0 \<and> (\<forall>s\<in>set segs. CHR ''/'' \<notin> set s) \<and>
     p = p0 @ join_segments segs"
proof (induction p)
  case Nil
  have "CHR ''/'' \<notin> set [] \<and> (\<forall>s\<in>set []. CHR ''/'' \<notin> set s) \<and> [] = [] @ join_segments []"
    by (simp add: join_segments_def)
  then show ?case by blast
next
  case (Cons c p)
  then obtain p0 segs where h: "CHR ''/'' \<notin> set p0" "\<forall>s\<in>set segs. CHR ''/'' \<notin> set s"
    "p = p0 @ join_segments segs"
    by blast
  show ?case
  proof (cases "c = CHR ''/''")
    case True
    with h have "CHR ''/'' \<notin> set [] \<and> (\<forall>s\<in>set (p0 # segs). CHR ''/'' \<notin> set s) \<and>
      c # p = [] @ join_segments (p0 # segs)"
      by (simp add: join_segments_def)
    then show ?thesis by blast
  next
    case False
    with h have "CHR ''/'' \<notin> set (c # p0) \<and> (\<forall>s\<in>set segs. CHR ''/'' \<notin> set s) \<and>
      c # p = (c # p0) @ join_segments segs"
      by simp
    then show ?thesis by blast
  qed
qed

section \<open>Properties of the capture middleware\<close>

lemma markable_write:
  "markable e \<Longrightarrow> write_marker e = Inr (e\<lparr>ingested := Some (JBool True)\<rparr>)"
  by (cases "integrity e") (auto simp: markable_def write_marker_def)

lemma unmarkable_write: "\<not> markable e \<Longrightarrow> write_marker e = Inl TypeError"
  by (cases "integrity e") (auto simp: markable_def write_marker_def)

lemma catch_ignore_fulfilled: "catch_ignore p = Fulfilled"
  by (cases p) simp_all

lemma resume_effects:
  "sendErrorEvent_resume node_env outcome = (later, p) \<Longrightarrow>
   later \<noteq> [] \<and> (\<forall>e\<in>set later. after_send e \<and> \<not> is_next e \<and> \<not> is_post e)"
  by (auto simp: sendErrorEvent_resume_def split: sum.splits if_splits)

lemma first_call_shape:
  assumes "\<not> truthy (read_marker e)" "markable e"
  shows "\<exists>t later p.
     sendErrorEvent_resume node_env outcome = (later, p) \<and>
     errorIngestionMiddleware options node_env now outcome (ErrorObject e) req res =
       \<lparr> thrown = None,
         err_after = ErrorObject (e\<lparr>ingested := Some (JBool True)\<rparr>),
         effects = HttpPost (apiUrl options @ ''/api/v1/events'') (projectKey options)
                     (build_errorEvent now (e\<lparr>ingested := Some (JBool True)\<rparr>) req res) t
                   # NextCalled (ErrorObject (e\<lparr>ingested := Some (JBool True)\<rparr>)) # later,
         send_promise = Some Fulfilled \<rparr>"
  using assms
  by (auto simp: errorIngestionMiddleware_def Let_def sendErrorEvent_start_def
      catch_ignore_fulfilled markable_write split: prod.splits)

lemma marked_call:
  "truthy (read_marker e) \<Longrightarrow>
   errorIngestionMiddleware options node_env now outcome (ErrorObject e) req res =
     \<lparr> thrown = None, err_after = ErrorObject e, effects = [NextCalled (ErrorObject e)],
       send_promise = None \<rparr>"
  by (simp add: errorIngestionMiddleware_def)

lemma unmarkable_call:
  "\<not> truthy (read_marker e) \<Longrightarrow> \<not> markable e \<Longrightarrow>
   errorIngestionMiddleware options node_env now outcome (ErrorObject e) req res =
     \<lparr> thrown = Some TypeError, err_after = ErrorObject e, effects = [],
       send_promise = None \<rparr>"
  by (simp add: errorIngestionMiddleware_def unmarkable_write)

lemma primitive_call:
  "errorIngestionMiddleware options node_env now outcome (Primitive v) req res =
     \<lparr> thrown = Some TypeError, err_after = Primitive v, effects = [], send_promise = None \<rparr>"
  by (simp add: errorIngestionMiddleware_def)

lemma posted_of_call:
  "\<not> truthy (read_marker err) \<Longrightarrow> markable err \<Longrightarrow>
   posted_events
     (effects (errorIngestionMiddleware options node_env now outcome (ErrorObject err) req res)) =
     [build_errorEvent now (err\<lparr>ingested := Some (JBool True)\<rparr>) req res]"
  by (auto simp: errorIngestionMiddleware_def Let_def sendErrorEvent_start_def
      sendErrorEvent_resume_def markable_write split: prod.splits sum.splits if_splits)

lemma pathToSanitize_query:
  assumes "req_originalUrl req = Some (p @ q)" "p @ q \<noteq> []" "CHR ''?'' \<notin> set p"
    "q = [] \<or> hd q = CHR ''?''"
  shows "pathToSanitize req = p"
proof -
  have "takeWhile (\<lambda>c. c \<noteq> CHR ''?'') (p @ q) = p"
  proof (cases q)
    case Nil
    then show ?thesis using assms(3) by (auto simp: takeWhile_eq_all_conv)
  next
    case (Cons c cs)
    with assms(4) have "c = CHR ''?''" by simp
    with Cons assms(3) show ?thesis by (auto simp: takeWhile_tail)
  qed
  with assms(1,2) show ?thesis by (simp add: pathToSanitize_def)
qed

lemma captured_path_fallback:
  assumes "\<not> truthy (read_marker err)" "markable err"
    and "req_originalUrl req = None \<or> req_originalUrl req = Some []"
  shows "map path (posted_events
           (effects (errorIngestionMiddleware options node_env now outcome (ErrorObject err)
              req res))) =
           [sanitizePath (req_path req)]"
  using assms by (auto simp: posted_of_call build_errorEvent_def pathToSanitize_def)

text \<open>
  Claim C8. The path of the posted event is the sanitized path: the query string of
  \<^verbatim>\<open>req.originalUrl\<close> is removed, and in what is left, read as a prefix without a slash
  followed by slash-led segments, each segment is rewritten on its own. A UUID-shaped
  segment becomes \<^verbatim>\<open>:id\<close>, the UUID test coming before the numeric one; a segment that is
  a run of digits becomes \<^verbatim>\<open>:id\<close>; the run of digits that leads a segment is replaced by
  \<^verbatim>\<open>:id\<close>. Every URL has this form (\<open>path_decomposes\<close>). An event is posted on the first
  capture of an error object that takes the marker.
\<close>

theorem captured_path_sanitized:
  assumes "\<not> truthy (read_marker err)" and "markable err"
    and "req_originalUrl req = Some (p0 @ join_segments segs @ q)"
    and "p0 @ join_segments segs @ q \<noteq> []"
    and "q = [] \<or> hd q = CHR ''?''"
    and "CHR ''/'' \<notin> set p0" and "CHR ''?'' \<notin> set p0"
    and "\<forall>s\<in>set segs. CHR ''/'' \<notin> set s \<and> CHR ''?'' \<notin> set s"
  shows "map path (posted_events
           (effects (errorIngestionMiddleware options node_env now outcome (ErrorObject err)
              req res))) =
           [p0 @ join_segments (map sanitize_segment segs)] \<and>
         (\<forall>s\<in>set segs. uuid_shaped s \<longrightarrow> sanitize_segment s = '':id'') \<and>
         (\<forall>s\<in>set segs. s \<noteq> [] \<and> list_all is_digit s \<longrightarrow> sanitize_segment s = '':id'') \<and>
         (\<forall>s\<in>set segs. takeWhile is_digit s \<noteq> [] \<and> \<not> uuid_shaped (take 36 s) \<longrightarrow>
            sanitize_segment s = '':id'' @ dropWhile is_digit s)"
proof -
  have nq: "CHR ''?'' \<notin> set (p0 @ join_segments segs)"
    using assms(7,8) by (auto simp: join_segments_def)
  have "pathToSanitize req = p0 @ join_segments segs"
    using assms(3,4,5) nq pathToSanitize_query [of req "p0 @ join_segments segs" q] by simp
  moreover have "sanitizePath (p0 @ join_segments segs) = p0 @ join_segments (map sanitize_segment segs)"
    using assms(6,8) by (intro sanitizePath_segments) auto
  ultimately have "map path (posted_events
           (effects (errorIngestionMiddleware options node_env now outcome (ErrorObject err)
              req res))) =
           [p0 @ join_segments (map sanitize_segment segs)]"
    using assms(1,2) by (simp add: posted_of_call build_errorEvent_def)
  moreover have "sanitize_segment s = '':id'' @ dropWhile is_digit s"
    if "takeWhile is_digit s \<noteq> []" "\<not> uuid_shaped (take 36 s)" for s
    using that by (simp add: sanitize_segment_def)
  ultimately show ?thesis
    using uuid_segment digits_segment digits_not_uuid by blast
qed

theorem captured_path_sanitized_witness:
  "map path (posted_events (effects
      (errorIngestionMiddleware opts1 None ''2024-01-15T12:00:00Z'' Success (ErrorObject err1)
         req1 res1))) =
     [''/users/:id/orders/:id'']"
proof -
  let ?segs = "[''users'', ''123'', ''orders'', ''550e8400-e29b-41d4-a716-446655440000'']"
  have 1: "\<not> truthy (read_marker err1)" "markable err1"
    by (simp_all add: err1_def read_marker_def markable_def)
  have 2: "req_originalUrl req1 = Some ([] @ join_segments ?segs @ ''?page=1&limit=10'')"
    by (simp add: req1_def join_segments_def)
  have 3: "[] @ join_segments ?segs @ ''?page=1&limit=10'' \<noteq> []"
    by (simp add: join_segments_def)
  have 4: "''?page=1&limit=10'' = [] \<or> hd ''?page=1&limit=10'' = CHR ''?''" by simp
  have 5: "CHR ''/'' \<notin> set []" "CHR ''?'' \<notin> set []" by simp_all
  have 6: "\<forall>s\<in>set ?segs. CHR ''/'' \<notin> set s \<and> CHR ''?'' \<notin> set s" by simp
  have 7: "map sanitize_segment ?segs = [''users'', '':id'', ''orders'', '':id'']"
    by code_simp
  have "map path (posted_events (effects
      (errorIngestionMiddleware opts1 None ''2024-01-15T12:00:00Z'' Success (ErrorObject err1)
         req1 res1))) =
     [[] @ join_segments (map sanitize_segment ?segs)]"
    using captured_path_sanitized [OF 1 2 3 4 5 6, of opts1 None "''2024-01-15T12:00:00Z''" Success res1]
    by (rule conjunct1)
  then show ?thesis
    unfolding 7 by (simp add: join_segments_def)
qed

lemma sanitizePath_examples:
  "sanitizePath ''/users/123'' = ''/users/:id''"
  "sanitizePath ''/users/123/orders/456'' = ''/users/:id/orders/:id''"
  "sanitizePath ''/users/550e8400-e29b-41d4-a716-446655440000'' = ''/users/:id''"
  by code_simp+

lemma sendErrorEvent_may_reject:
  "sendErrorEvent_resume (Some ''development'') (OtherRejection JUndefined) =
     ([SendSettled (OtherRejection JUndefined)], Rejected TypeError)"
  by (simp add: sendErrorEvent_resume_def)

text \<open>
  The handler ends with an exception exactly when the error value cannot take the marker
  and does not carry it: a primitive, or an object that is frozen, or non-extensible
  without the property.
\<close>

lemma handler_throws_iff:
  "thrown (errorIngestionMiddleware options node_env now outcome err req res) \<noteq> None \<longleftrightarrow>
     (case err of
        Primitive v \<Rightarrow> True
      | ErrorObject e \<Rightarrow> \<not> truthy (read_marker e) \<and> \<not> markable e)"
proof (cases err)
  case (Primitive v)
  then show ?thesis by (simp add: primitive_call)
next
  case (ErrorObject e)
  show ?thesis
  proof (cases "truthy (read_marker e)")
    case True
    with ErrorObject show ?thesis by (simp add: marked_call)
  next
    case False
    show ?thesis
    proof (cases "markable e")
      case True
      from first_call_shape [OF False True, where node_env=node_env and outcome=outcome
          and options=options and now=now and req=req and res=res]
      show ?thesis using ErrorObject False True by auto
    next
      case m: False
      with ErrorObject False show ?thesis by (simp add: unmarkable_call)
    qed
  qed
qed

text \<open>
  On an error object that carries the marker or takes it, whatever the network does with
  the request (success, HTTP rejection, network error, timeout, or a rejection with any
  other value): the handler ends without an exception, the promise of the send, when one
  was started, ends fulfilled, \<^verbatim>\<open>next(err)\<close> is called exactly once with the error
  object, nothing that depends on the settlement of the request happens before
  \<^verbatim>\<open>next(err)\<close>, and on a first capture the settlement and the warning come after it.
\<close>

lemma handler_completes_when_marker_taken:
  assumes "truthy (read_marker e) \<or> markable e"
  shows
  "thrown (errorIngestionMiddleware options node_env now outcome (ErrorObject e) req res) = None \<and>
   send_promise (errorIngestionMiddleware options node_env now outcome (ErrorObject e) req res)
     \<in> {None, Some Fulfilled} \<and>
   filter is_next
     (effects (errorIngestionMiddleware options node_env now outcome (ErrorObject e) req res)) =
     [NextCalled
        (err_after (errorIngestionMiddleware options node_env now outcome (ErrorObject e) req res))] \<and>
   list_all (\<lambda>x. \<not> after_send x)
     (takeWhile (\<lambda>x. \<not> is_next x)
        (effects (errorIngestionMiddleware options node_env now outcome (ErrorObject e) req res))) \<and>
   (\<not> truthy (read_marker e) \<longrightarrow>
      list_all after_send
        (tl (dropWhile (\<lambda>x. \<not> is_next x)
           (effects (errorIngestionMiddleware options node_env now outcome (ErrorObject e) req res)))) \<and>
      SendSettled outcome \<in> set
        (tl (dropWhile (\<lambda>x. \<not> is_next x)
           (effects (errorIngestionMiddleware options node_env now outcome (ErrorObject e) req res)))))"
proof (cases "truthy (read_marker e)")
  case True
  then show ?thesis by (simp add: marked_call)
next
  case False
  with assms have m: "markable e" by simp
  from first_call_shape [OF False m, where node_env=node_env and outcome=outcome
      and options=options and now=now and req=req and res=res]
  obtain t later p where
    l: "sendErrorEvent_resume node_env outcome = (later, p)" and
    r: "errorIngestionMiddleware options node_env now outcome (ErrorObject e) req res =
       \<lparr> thrown = None,
         err_after = ErrorObject (e\<lparr>ingested := Some (JBool True)\<rparr>),
         effects = HttpPost (apiUrl options @ ''/api/v1/events'') (projectKey options)
                     (build_errorEvent now (e\<lparr>ingested := Some (JBool True)\<rparr>) req res) t
                   # NextCalled (ErrorObject (e\<lparr>ingested := Some (JBool True)\<rparr>)) # later,
         send_promise = Some Fulfilled \<rparr>"
    by blast
  have f: "filter is_next later = []" and a: "list_all after_send later"
    using resume_effects [OF l] by (auto simp: filter_empty_conv list_all_iff)
  have s: "SendSettled outcome \<in> set later"
    using l by (auto simp: sendErrorEvent_resume_def split: sum.splits if_splits)
  show ?thesis
    using False by (simp add: r f a s)
qed

lemma handler_completes_example:
  "effects (errorIngestionMiddleware opts1 (Some ''development'') ''2024-01-15T12:00:00Z''
      (NetworkError ''connect ECONNREFUSED 127.0.0.1:1'') (ErrorObject err1) req1 res1) =
     [HttpPost ''https://api.example.com/api/v1/events'' ''test-project''
        \<lparr> message = ''Test error'', stack = None, event_method = ''GET'',
          path = ''/users/:id/orders/:id'', status_code = JNum 500,
          timestamp = ''2024-01-15T12:00:00Z'' \<rparr> 5000,
      NextCalled (ErrorObject (err1\<lparr>ingested := Some (JBool True)\<rparr>)),
      SendSettled (NetworkError ''connect ECONNREFUSED 127.0.0.1:1''),
      ConsoleWarn
        ''[Error Ingestion SDK] Failed to send error event: connect ECONNREFUSED 127.0.0.1:1'']"
  by code_simp

text \<open>
  Claim C4 fails on the code. On a frozen \<^verbatim>\<open>Error\<close> object, whatever the options, the
  request, the response and the outcome of the send, the handler ends with a
  \<^verbatim>\<open>TypeError\<close> at the marker write: nothing is posted and \<^verbatim>\<open>next(err)\<close> is not called.
\<close>

theorem frozen_error_interrupts_handler:
  "errorIngestionMiddleware options node_env now outcome
     (ErrorObject (err1\<lparr>integrity := Frozen\<rparr>)) req res =
     \<lparr> thrown = Some TypeError, err_after = ErrorObject (err1\<lparr>integrity := Frozen\<rparr>),
       effects = [], send_promise = None \<rparr>"
  by (simp add: errorIngestionMiddleware_def write_marker_def read_marker_def err1_def)

text \<open>
  Claim C5, as stated, fails: the middleware sets the marker on the error object it is
  given. Here an error object without the marker carries it after one call.
\<close>

theorem capture_marks_error_counterexample:
  "err_after (errorIngestionMiddleware opts1 None ''2024-01-15T12:00:00Z'' Success
     (ErrorObject err1) req1 res1) \<noteq> ErrorObject err1 \<and>
   err_after (errorIngestionMiddleware opts1 None ''2024-01-15T12:00:00Z'' Success
     (ErrorObject err1) req1 res1) = ErrorObject (err1\<lparr>ingested := Some (JBool True)\<rparr>) \<and>
   ingested err1 = None"
  by (simp add: errorIngestionMiddleware_def err1_def Let_def write_marker_def read_marker_def
      split: prod.splits)

text \<open>
  Claim C5, amended. On the first capture of an error object that takes the marker, the
  middleware sets the property \<^verbatim>\<open>Symbol.for('error_ingested')\<close> of the object to
  \<^verbatim>\<open>true\<close>; an error object that already carries a truthy marker is not changed at all;
  and in every call the integrity, the status properties, the message and the stack of
  the error object are left as they were.
\<close>

theorem capture_mutates_only_marker:
  "(\<not> truthy (read_marker e) \<and> markable e \<longrightarrow>
      err_after (errorIngestionMiddleware options node_env now outcome (ErrorObject e) req res) =
        ErrorObject (e\<lparr>ingested := Some (JBool True)\<rparr>)) \<and>
   (truthy (read_marker e) \<longrightarrow>
      err_after (errorIngestionMiddleware options node_env now outcome (ErrorObject e) req res) =
        ErrorObject e) \<and>
   (\<exists>e'. err_after (errorIngestionMiddleware options node_env now outcome (ErrorObject e) req res) =
           ErrorObject e' \<and>
         integrity e' = integrity e \<and> err_statusCode e' = err_statusCode e \<and>
         err_status e' = err_status e \<and> err_message e' = err_message e \<and>
         err_stack e' = err_stack e)"
proof (cases "truthy (read_marker e)")
  case True
  then show ?thesis by (simp add: marked_call)
next
  case False
  show ?thesis
  proof (cases "markable e")
    case True
    from first_call_shape [OF False True, where node_env=node_env and outcome=outcome
        and options=options and now=now and req=req and res=res]
    show ?thesis using False True by auto
  next
    case m: False
    with False show ?thesis by (simp add: unmarkable_call)
  qed
qed

theorem capture_mutates_only_marker_witness:
  "err_after (errorIngestionMiddleware opts1 None ''2024-01-15T12:00:00Z'' Success
     (ErrorObject err1) req1 res1) = ErrorObject (err1\<lparr>ingested := Some (JBool True)\<rparr>) \<and>
   err_after (errorIngestionMiddleware opts1 None ''2024-01-15T12:00:00Z'' Success
     (ErrorObject (err1\<lparr>ingested := Some (JBool True)\<rparr>)) req1 res1) =
     ErrorObject (err1\<lparr>ingested := Some (JBool True)\<rparr>)"
proof -
  have 1: "\<not> truthy (read_marker err1) \<and> markable err1"
    by (simp add: err1_def read_marker_def markable_def)
  have 2: "truthy (read_marker (err1\<lparr>ingested := Some (JBool True)\<rparr>))"
    by (simp add: read_marker_def)
  show ?thesis
    using capture_mutates_only_marker
        [of err1 opts1 None "''2024-01-15T12:00:00Z''" Success req1 res1]
      capture_mutates_only_marker
        [of "err1\<lparr>ingested := Some (JBool True)\<rparr>" opts1 None "''2024-01-15T12:00:00Z''"
          Success req1 res1]
      1 2
    by blast
qed

lemma call_layer_posts: "length (filter is_post (effects (call_layer c err))) \<le> 1"
proof (cases err)
  case (Primitive v)
  then show ?thesis by (simp add: call_layer_def primitive_call)
next
  case (ErrorObject e)
  show ?thesis
  proof (cases "truthy (read_marker e)")
    case True
    with ErrorObject show ?thesis by (simp add: call_layer_def marked_call)
  next
    case False
    show ?thesis
    proof (cases "markable e")
      case True
      from first_call_shape [OF False True, where node_env="lc_node_env c"
          and outcome="lc_outcome c" and options="lc_options c" and now="lc_now c"
          and req="lc_req c" and res="lc_res c"]
      obtain ev t later p where
        l: "sendErrorEvent_resume (lc_node_env c) (lc_outcome c) = (later, p)" and
        r: "effects (call_layer c err) =
              HttpPost (apiUrl (lc_options c) @ ''/api/v1/events'') (projectKey (lc_options c)) ev t
              # NextCalled (ErrorObject (e\<lparr>ingested := Some (JBool True)\<rparr>)) # later"
        unfolding call_layer_def ErrorObject by force
      have "filter is_post later = []"
        using resume_effects [OF l] by (auto simp: filter_empty_conv)
      then show ?thesis by (simp add: r)
    next
      case m: False
      with ErrorObject False show ?thesis by (simp add: call_layer_def unmarkable_call)
    qed
  qed
qed

lemma call_layers_length: "length (call_layers cs err) = length cs"
  by (induction cs arbitrary: err) (simp_all add: Let_def)

text \<open>Once an error object carries the marker, every call only forwards it.\<close>

lemma call_layers_marked:
  "truthy (read_marker e) \<Longrightarrow>
   call_layers cs (ErrorObject e) =
     replicate (length cs)
       \<lparr> thrown = None, err_after = ErrorObject e, effects = [NextCalled (ErrorObject e)],
         send_promise = None \<rparr>"
  by (induction cs) (simp_all add: call_layer_def marked_call Let_def)

text \<open>An error value that cannot take the marker makes every call throw.\<close>

lemma call_layers_unmarkable:
  "\<not> truthy (read_marker e) \<Longrightarrow> \<not> markable e \<Longrightarrow>
   call_layers cs (ErrorObject e) =
     replicate (length cs)
       \<lparr> thrown = Some TypeError, err_after = ErrorObject e, effects = [],
         send_promise = None \<rparr>"
  by (induction cs) (simp_all add: call_layer_def unmarkable_call Let_def)

lemma call_layers_primitive:
  "call_layers cs (Primitive v) =
     replicate (length cs)
       \<lparr> thrown = Some TypeError, err_after = Primitive v, effects = [], send_promise = None \<rparr>"
  by (induction cs) (simp_all add: call_layer_def primitive_call Let_def)

lemma no_post_in_replicate:
  "\<forall>x\<in>set (effects r). \<not> is_post x \<Longrightarrow>
   filter is_post (concat (map effects (replicate n r))) = []"
  by (induction n) (auto simp: filter_empty_conv)

text \<open>
  Whatever the error value and the calls, at most one event is posted in all; and when
  the first call does not throw, every call after it does nothing but call \<^verbatim>\<open>next\<close> with
  the error object.
\<close>

lemma posts_at_most_once:
  "length (filter is_post (concat (map effects (call_layers cs err)))) \<le> 1"
proof (cases cs)
  case Nil
  then show ?thesis by simp
next
  case (Cons c rest)
  have tail: "filter is_post (concat (map effects (call_layers rest (err_after (call_layer c err))))) = []"
  proof (cases err)
    case (Primitive v)
    then show ?thesis
      by (simp add: call_layer_def primitive_call call_layers_primitive no_post_in_replicate)
  next
    case (ErrorObject e)
    show ?thesis
    proof (cases "truthy (read_marker e)")
      case True
      with ErrorObject show ?thesis
        by (simp add: call_layer_def marked_call call_layers_marked no_post_in_replicate)
    next
      case False
      show ?thesis
      proof (cases "markable e")
        case True
        from first_call_shape [OF False True, where node_env="lc_node_env c"
            and outcome="lc_outcome c" and options="lc_options c" and now="lc_now c"
            and req="lc_req c" and res="lc_res c"]
        have "err_after (call_layer c err) = ErrorObject (e\<lparr>ingested := Some (JBool True)\<rparr>)"
          unfolding call_layer_def ErrorObject by force
        moreover have "truthy (read_marker (e\<lparr>ingested := Some (JBool True)\<rparr>))"
          by (simp add: read_marker_def)
        ultimately show ?thesis
          by (simp add: call_layers_marked no_post_in_replicate)
      next
        case m: False
        with ErrorObject False show ?thesis
          by (simp add: call_layer_def unmarkable_call call_layers_unmarkable
              no_post_in_replicate)
      qed
    qed
  qed
  show ?thesis
    using call_layer_posts [of c err] by (simp add: Cons Let_def tail)
qed

lemma later_calls_forward:
  assumes "truthy (read_marker e) \<or> markable e" "0 < i" "i < length cs"
  shows "\<exists>e'. call_layers cs (ErrorObject e) ! i =
            \<lparr> thrown = None, err_after = ErrorObject e',
              effects = [NextCalled (ErrorObject e')], send_promise = None \<rparr>"
proof -
  from assms(2,3) obtain c rest j where cs: "cs = c # rest" and i: "i = Suc j" "j < length rest"
    by (cases cs; cases i) auto
  have "\<exists>e'. err_after (call_layer c (ErrorObject e)) = ErrorObject e' \<and> truthy (read_marker e')"
  proof (cases "truthy (read_marker e)")
    case True
    then show ?thesis by (simp add: call_layer_def marked_call)
  next
    case False
    with assms(1) have m: "markable e" by simp
    from first_call_shape [OF False m, where node_env="lc_node_env c"
        and outcome="lc_outcome c" and options="lc_options c" and now="lc_now c"
        and req="lc_req c" and res="lc_res c"]
    have "err_after (call_layer c (ErrorObject e)) = ErrorObject (e\<lparr>ingested := Some (JBool True)\<rparr>)"
      unfolding call_layer_def by force
    then show ?thesis by (simp add: read_marker_def)
  qed
  then obtain e' where e': "err_after (call_layer c (ErrorObject e)) = ErrorObject e'"
    "truthy (read_marker e')"
    by blast
  show ?thesis
    using i by (simp add: cs Let_def e' call_layers_marked)
qed

text \<open>
  Claim C6 fails on the code. When two layers are called with the same frozen \<^verbatim>\<open>Error\<close>
  object, the second call, like the first, ends with a \<^verbatim>\<open>TypeError\<close> and does not call
  \<^verbatim>\<open>next(err)\<close>; nothing is posted.
\<close>

theorem frozen_error_never_forwarded:
  "call_layers [c1, c2] (ErrorObject (err1\<lparr>integrity := Frozen\<rparr>)) =
     [\<lparr> thrown = Some TypeError, err_after = ErrorObject (err1\<lparr>integrity := Frozen\<rparr>),
        effects = [], send_promise = None \<rparr>,
      \<lparr> thrown = Some TypeError, err_after = ErrorObject (err1\<lparr>integrity := Frozen\<rparr>),
        effects = [], send_promise = None \<rparr>]"
  by (simp add: call_layer_def errorIngestionMiddleware_def write_marker_def read_marker_def
      err1_def Let_def)

lemma three_layers_example:
  "map (\<lambda>r. length (filter is_post (effects r))) (call_layers [layer1, layer1, layer1] (ErrorObject err1)) =
     [1, 0, 0] \<and>
   map (\<lambda>r. filter is_next (effects r)) (call_layers [layer1, layer1, layer1] (ErrorObject err1)) =
     [[NextCalled (ErrorObject (err1\<lparr>ingested := Some (JBool True)\<rparr>))],
      [NextCalled (ErrorObject (err1\<lparr>ingested := Some (JBool True)\<rparr>))],
      [NextCalled (ErrorObject (err1\<lparr>ingested := Some (JBool True)\<rparr>))]]"
  by code_simp

text \<open>
  Claim C9. For an error whose \<^verbatim>\<open>statusCode\<close> and \<^verbatim>\<open>status\<close> are both falsy, the posted
  status code is the response's \<^verbatim>\<open>statusCode\<close> when that is truthy and not 200, and 500
  otherwise. On a response left at the default 200 it is 500, which meets the threshold
  of the Trigger Policy. An event is posted on the first capture of an error object that
  takes the marker.
\<close>

theorem unlabeled_error_status:
  assumes "\<not> truthy (read_marker err)" and "markable err"
    and "\<not> truthy (err_statusCode err)" and "\<not> truthy (err_status err)"
  shows "map status_code (posted_events
           (effects (errorIngestionMiddleware options node_env now outcome (ErrorObject err)
              req res))) =
           [if truthy (res_statusCode res) \<and> res_statusCode res \<noteq> JNum 200
            then res_statusCode res else JNum 500] \<and>
         (res_statusCode res = JNum 200 \<longrightarrow>
            map status_code (posted_events
              (effects (errorIngestionMiddleware options node_env now outcome (ErrorObject err)
                 req res))) =
              [JNum 500] \<and>
            (\<forall>event. ee_status_code event = stored_status (JNum 500) \<longrightarrow> decide event))"
  using assms
  by (simp add: posted_of_call build_errorEvent_def resolve_statusCode_def js_or_def decide_def)

theorem unlabeled_error_status_witness:
  "map status_code (posted_events (effects
      (errorIngestionMiddleware opts1 None ''2024-01-15T12:00:00Z'' Success (ErrorObject err1)
         req1 res1))) =
     [JNum 500] \<and>
   map status_code (posted_events (effects
      (errorIngestionMiddleware opts1 None ''2024-01-15T12:00:00Z'' Success (ErrorObject err1) req1
         \<lparr>res_statusCode = JNum 404\<rparr>))) = [JNum 404] \<and>
   decide \<lparr> ee_id = 1, ee_project = 1, ee_timestamp = ''2024-01-15T12:00:00Z'',
            ee_status_code = stored_status (JNum 500), ee_message = ''Test error'',
            ee_stack = None, ee_method = ''GET'', ee_path = ''/users/:id/orders/:id'' \<rparr>"
proof -
  have 1: "\<not> truthy (read_marker err1)" "markable err1" "\<not> truthy (err_statusCode err1)"
    "\<not> truthy (err_status err1)"
    by (simp_all add: err1_def read_marker_def markable_def)
  show ?thesis
    using unlabeled_error_status [OF 1, of opts1 None "''2024-01-15T12:00:00Z''" Success req1 res1]
      unlabeled_error_status [OF 1, of opts1 None "''2024-01-15T12:00:00Z''" Success req1
        "\<lparr>res_statusCode = JNum 404\<rparr>"]
    by (simp add: res1_def)
qed

section \<open>Properties of the analysis pipeline\<close>

lemma has_analysis_iff:
  "has_analysis db i \<longleftrightarrow> i \<in> error_event_id ` set (db_analyses db)"
  by (auto simp: has_analysis_def analyses_for_def filter_empty_conv)

lemma persist_unique:
  "persist w db r = (db', out) \<Longrightarrow> unique_analyses db \<Longrightarrow> unique_analyses db'"
  by (auto simp: persist_def unique_analyses_def has_analysis_iff split: if_splits)

lemma persist_events:
  "persist w db r = (db', out) \<Longrightarrow> db_events db' = db_events db \<and> db_projects db' = db_projects db"
  by (auto simp: persist_def split: if_splits)

lemma persist_grows:
  "persist w db r = (db', out) \<Longrightarrow> has_analysis db i \<Longrightarrow> has_analysis db' i"
  by (auto simp: persist_def has_analysis_iff split: if_splits)

lemma worker_step_unique:
  "worker_step w db st = (db', st') \<Longrightarrow> unique_analyses db \<Longrightarrow> unique_analyses db'"
  by (cases st) (auto split: sum.splits prod.splits dest: persist_unique)

lemma worker_step_events:
  "worker_step w db st = (db', st') \<Longrightarrow>
   db_events db' = db_events db \<and> db_projects db' = db_projects db"
  by (cases st) (auto split: sum.splits prod.splits dest: persist_events)

lemma worker_step_grows:
  "worker_step w db st = (db', st') \<Longrightarrow> has_analysis db i \<Longrightarrow> has_analysis db' i"
  by (cases st) (auto split: sum.splits prod.splits dest: persist_grows)

lemma pool_step_unique:
  "unique_analyses (fst s) \<Longrightarrow> unique_analyses (fst (pool_step k s))"
  by (cases s) (auto simp: pool_step_def split: prod.splits dest: worker_step_unique)

lemma run_schedule_unique:
  "unique_analyses (fst s) \<Longrightarrow> unique_analyses (fst (run_schedule sched s))"
  unfolding run_schedule_def
  by (induction sched arbitrary: s) (simp_all add: pool_step_unique)

lemma distinct_filter_le_one:
  "distinct (map f xs) \<Longrightarrow> length (filter (\<lambda>a. f a = i) xs) \<le> 1"
proof (induction xs)
  case Nil
  then show ?case by simp
next
  case (Cons a xs)
  show ?case
  proof (cases "f a = i")
    case True
    with Cons.prems have "i \<notin> f ` set xs" by simp
    then have "filter (\<lambda>a. f a = i) xs = []"
      by (auto simp: filter_empty_conv)
    with True show ?thesis by simp
  next
    case False
    with Cons show ?thesis by simp
  qed
qed

lemma unique_at_most_one:
  "unique_analyses db \<Longrightarrow> length (analyses_for db i) \<le> 1"
  unfolding unique_analyses_def analyses_for_def by (rule distinct_filter_le_one)

lemma lookup_event_id: "lookup_event db i = Some event \<Longrightarrow> ee_id event = i"
  by (auto simp: lookup_event_def dest: find_Some_iff [THEN iffD1])

lemma skip_existing:
  assumes "lookup_event db (task_event_id t) = Some event" "has_analysis db (task_event_id t)"
  shows "worker_step w db (Dequeued t) = (db, Finished AckNoop)"
  using assms lookup_event_id [OF assms(1)] by (simp add: prepare_def)

lemma on_task_grows:
  assumes "on_task i t db wk" "\<And>j. has_analysis db j \<Longrightarrow> has_analysis db' j"
  shows "on_task i t db' wk"
  using assms by (auto simp: on_task_def split: stage.splits)

lemma analyse_event_id: "analyse_event w db event = Inr r \<Longrightarrow> error_event_id r = ee_id event"
  by (auto simp: analyse_event_def Let_def split: sum.splits)

lemma analyse_event_dependable:
  "dependable w \<Longrightarrow> \<exists>r. analyse_event w db event = Inr r"
proof -
  assume "dependable w"
  then obtain reply where
    "analyze w (ee_message event) (frames_of w event) (fetch_snippets w db event) = Inr reply"
    unfolding dependable_def by blast
  then show ?thesis by (simp add: analyse_event_def Let_def)
qed

lemma on_task_step:
  assumes "on_task i t db wk"
    and "lookup_event db i = Some event" "decide event" "task_event_id t = i"
    and "worker_step (wk_world wk) db (wk_stage wk) = (db', st)"
  shows "on_task i t db' (wk\<lparr>wk_stage := st\<rparr>)"
proof (cases "wk_stage wk")
  case (Dequeued t')
  with assms(1) have t': "t' = t" and d: "dependable (wk_world wk)"
    by (simp_all add: on_task_def)
  have id: "ee_id event = i" using assms(2) by (rule lookup_event_id)
  show ?thesis
  proof (cases "has_analysis db i")
    case True
    with assms Dequeued t' d id show ?thesis
      by (auto simp: on_task_def prepare_def)
  next
    case False
    from analyse_event_dependable [OF d] obtain r where
      r: "analyse_event (wk_world wk) db event = Inr r" by blast
    with assms Dequeued t' d id False analyse_event_id [OF r] show ?thesis
      by (auto simp: on_task_def prepare_def)
  qed
next
  case (Prepared r)
  with assms(1) have r: "error_event_id r = i" and d: "dependable (wk_world wk)"
    by (simp_all add: on_task_def)
  with assms(5) Prepared show ?thesis
    by (auto simp: on_task_def persist_def dependable_def has_analysis_iff split: if_splits)
next
  case (Finished out)
  with assms(5) have "db' = db" "st = Finished out" by auto
  with assms(1) Finished show ?thesis
    by (simp add: on_task_def)
qed

lemma pool_step_on_task:
  assumes "\<forall>wk\<in>set ws. on_task i t db wk"
    and "lookup_event db i = Some event" "decide event" "task_event_id t = i"
    and "pool_step k (db, ws) = (db', ws')"
  shows "(\<forall>wk\<in>set ws'. on_task i t db' wk) \<and> lookup_event db' i = Some event \<and>
         length ws' = length ws"
proof (cases "k < length ws")
  case False
  with assms show ?thesis by (auto simp: pool_step_def)
next
  case True
  obtain st where st: "worker_step (wk_world (ws ! k)) db (wk_stage (ws ! k)) = (db', st)"
    and ws': "ws' = ws[k := (ws ! k)\<lparr>wk_stage := st\<rparr>]"
    using assms(5) True by (auto simp: pool_step_def split: prod.splits)
  have grow: "\<And>j. has_analysis db j \<Longrightarrow> has_analysis db' j"
    using st by (rule worker_step_grows)
  have ev: "db_events db' = db_events db"
    using worker_step_events [OF st] by simp
  have k: "on_task i t db' ((ws ! k)\<lparr>wk_stage := st\<rparr>)"
    using assms(1) True st by (intro on_task_step [OF _ assms(2,3,4)]) auto
  have "on_task i t db' wk" if "wk \<in> set ws'" for wk
  proof -
    from that have "wk = (ws ! k)\<lparr>wk_stage := st\<rparr> \<or> wk \<in> set ws"
      unfolding ws' by (meson insertE set_update_subset_insert subsetD)
    then show ?thesis
      using k assms(1) grow by (auto intro: on_task_grows)
  qed
  then show ?thesis
    using ev assms(2) by (simp add: lookup_event_def ws')
qed

lemma run_schedule_on_task:
  assumes "\<forall>wk\<in>set ws. on_task i t db wk"
    and "lookup_event db i = Some event" "decide event" "task_event_id t = i"
    and "run_schedule sched (db, ws) = (db', ws')"
  shows "(\<forall>wk\<in>set ws'. on_task i t db' wk) \<and> lookup_event db' i = Some event \<and>
         length ws' = length ws"
  using assms
proof (induction sched arbitrary: db ws)
  case Nil
  then show ?case by (simp add: run_schedule_def)
next
  case (Cons k sched)
  obtain db1 ws1 where s1: "pool_step k (db, ws) = (db1, ws1)"
    by (cases "pool_step k (db, ws)")
  from pool_step_on_task [OF Cons.prems(1,2,3,4) s1]
  have 1: "\<forall>wk\<in>set ws1. on_task i t db1 wk" "lookup_event db1 i = Some event"
    "length ws1 = length ws"
    by simp_all
  have "run_schedule sched (db1, ws1) = (db', ws')"
    using Cons.prems(5) s1 by (simp add: run_schedule_def)
  from Cons.IH [OF 1(1,2) Cons.prems(3,4) this] 1(3) show ?case by simp
qed

text \<open>
  Progress: every step of a worker that has not finished takes it one stage further, so a
  worker that the schedule names at least twice has finished.
\<close>

lemma worker_step_rank:
  "worker_step w db st = (db', st') \<Longrightarrow> min 2 (Suc (stage_rank st)) \<le> stage_rank st'"
  by (cases st) (auto split: sum.splits prod.splits)

lemma pool_step_rank:
  assumes "pool_step j (db, ws) = (db', ws')"
  shows "length ws' = length ws \<and>
     (\<forall>k<length ws. min 2 (stage_rank (wk_stage (ws ! k)) + (if j = k then 1 else 0))
        \<le> stage_rank (wk_stage (ws' ! k)))"
proof (cases "j < length ws")
  case False
  with assms show ?thesis by (auto simp: pool_step_def)
next
  case True
  obtain st where st: "worker_step (wk_world (ws ! j)) db (wk_stage (ws ! j)) = (db', st)"
    and ws': "ws' = ws[j := (ws ! j)\<lparr>wk_stage := st\<rparr>]"
    using assms True by (auto simp: pool_step_def split: prod.splits)
  from worker_step_rank [OF st] True show ?thesis
    by (auto simp: ws' nth_list_update)
qed

lemma run_schedule_rank:
  "run_schedule sched (db, ws) = (db', ws') \<Longrightarrow>
   length ws' = length ws \<and>
   (\<forall>k<length ws. min 2 (stage_rank (wk_stage (ws ! k)) + count_list sched k)
      \<le> stage_rank (wk_stage (ws' ! k)))"
proof (induction sched arbitrary: db ws)
  case Nil
  then show ?case by (simp add: run_schedule_def)
next
  case (Cons j sched)
  obtain db1 ws1 where s1: "pool_step j (db, ws) = (db1, ws1)"
    by (cases "pool_step j (db, ws)")
  have r: "run_schedule sched (db1, ws1) = (db', ws')"
    using Cons.prems s1 by (simp add: run_schedule_def)
  from pool_step_rank [OF s1] have l1: "length ws1 = length ws"
    and p1: "\<And>k. k < length ws \<Longrightarrow>
      min 2 (stage_rank (wk_stage (ws ! k)) + (if j = k then 1 else 0))
        \<le> stage_rank (wk_stage (ws1 ! k))"
    by simp_all
  from Cons.IH [OF r] have l2: "length ws' = length ws1"
    and p2: "\<And>k. k < length ws1 \<Longrightarrow>
      min 2 (stage_rank (wk_stage (ws1 ! k)) + count_list sched k)
        \<le> stage_rank (wk_stage (ws' ! k))"
    by simp_all
  have "min 2 (stage_rank (wk_stage (ws ! k)) + count_list (j # sched) k)
      \<le> stage_rank (wk_stage (ws' ! k))" if "k < length ws" for k
    using p1 [OF that] p2 [of k] that l1 by (auto simp: min_def split: if_splits)
  then show ?case using l1 l2 by simp
qed

lemma stage_rank_finished: "2 \<le> stage_rank st \<Longrightarrow> finished st"
  by (cases st) simp_all

lemma schedule_progress:
  assumes "\<forall>k<length ws. 2 \<le> count_list sched k"
  shows "list_all (\<lambda>wk. finished (wk_stage wk)) (snd (run_schedule sched (db, ws)))"
proof -
  obtain db' ws' where r: "run_schedule sched (db, ws) = (db', ws')"
    by (cases "run_schedule sched (db, ws)")
  from run_schedule_rank [OF r] have l: "length ws' = length ws"
    and p: "\<And>k. k < length ws \<Longrightarrow>
      min 2 (stage_rank (wk_stage (ws ! k)) + count_list sched k)
        \<le> stage_rank (wk_stage (ws' ! k))"
    by simp_all
  have "finished (wk_stage (ws' ! k))" if "k < length ws'" for k
  proof -
    from that l have k: "k < length ws" by simp
    with assms have "2 \<le> count_list sched k" by simp
    with p [OF k] have "2 \<le> stage_rank (wk_stage (ws' ! k))" by simp
    then show ?thesis by (rule stage_rank_finished)
  qed
  then show ?thesis
    by (simp add: r list_all_length)
qed

text \<open>
  Claim C1. From a database in which no event has two AnalysisRecords, whatever the
  workers, their stages and the interleaving of their steps, no event ever has two. A
  worker that dequeues a task for an event whose analysis exists finishes with a no-op and
  leaves the database as it is. When the same task is delivered to two workers whose
  engine and database respond, under any interleaving after which both have finished,
  the event has exactly one AnalysisRecord. Both workers do finish under every schedule
  that names each of them at least twice, so under every such schedule the two deliveries
  leave exactly one AnalysisRecord.
\<close>

theorem one_analysis_per_event:
  assumes "unique_analyses db"
  shows "unique_analyses (fst (run_schedule sched (db, ws))) \<and>
         length (analyses_for (fst (run_schedule sched (db, ws))) i) \<le> 1 \<and>
         (lookup_event db (task_event_id t) = Some event \<and> has_analysis db (task_event_id t) \<longrightarrow>
            worker_step w db (Dequeued t) = (db, Finished AckNoop)) \<and>
         (dependable w1 \<and> dependable w2 \<and>
          lookup_event db (task_event_id t) = Some event \<and> decide event \<and>
          list_all (\<lambda>wk. finished (wk_stage wk))
            (snd (run_schedule sched2
               (db, [\<lparr>wk_world = w1, wk_stage = Dequeued t\<rparr>,
                     \<lparr>wk_world = w2, wk_stage = Dequeued t\<rparr>]))) \<longrightarrow>
          length (analyses_for
            (fst (run_schedule sched2
               (db, [\<lparr>wk_world = w1, wk_stage = Dequeued t\<rparr>,
                     \<lparr>wk_world = w2, wk_stage = Dequeued t\<rparr>])))
            (task_event_id t)) = 1) \<and>
         (2 \<le> count_list sched2 0 \<and> 2 \<le> count_list sched2 1 \<longrightarrow>
          list_all (\<lambda>wk. finished (wk_stage wk))
            (snd (run_schedule sched2
               (db, [\<lparr>wk_world = w1, wk_stage = Dequeued t\<rparr>,
                     \<lparr>wk_world = w2, wk_stage = Dequeued t\<rparr>])))) \<and>
         (dependable w1 \<and> dependable w2 \<and>
          lookup_event db (task_event_id t) = Some event \<and> decide event \<and>
          2 \<le> count_list sched2 0 \<and> 2 \<le> count_list sched2 1 \<longrightarrow>
          length (analyses_for
            (fst (run_schedule sched2
               (db, [\<lparr>wk_world = w1, wk_stage = Dequeued t\<rparr>,
                     \<lparr>wk_world = w2, wk_stage = Dequeued t\<rparr>])))
            (task_event_id t)) = 1)"
proof -
  have u: "unique_analyses (fst (run_schedule s (db, x)))" for s x
    using assms by (intro run_schedule_unique) simp
  have dup: "length (analyses_for
            (fst (run_schedule sched2
               (db, [\<lparr>wk_world = w1, wk_stage = Dequeued t\<rparr>,
                     \<lparr>wk_world = w2, wk_stage = Dequeued t\<rparr>])))
            (task_event_id t)) = 1"
    if d: "dependable w1" "dependable w2"
      and e: "lookup_event db (task_event_id t) = Some event" "decide event"
      and f: "list_all (\<lambda>wk. finished (wk_stage wk))
            (snd (run_schedule sched2
               (db, [\<lparr>wk_world = w1, wk_stage = Dequeued t\<rparr>,
                     \<lparr>wk_world = w2, wk_stage = Dequeued t\<rparr>])))"
  proof -
    let ?ws = "[\<lparr>wk_world = w1, wk_stage = Dequeued t\<rparr>, \<lparr>wk_world = w2, wk_stage = Dequeued t\<rparr>]"
    let ?i = "task_event_id t"
    obtain db' ws' where r: "run_schedule sched2 (db, ?ws) = (db', ws')"
      by (cases "run_schedule sched2 (db, ?ws)")
    have "\<forall>wk\<in>set ?ws. on_task ?i t db wk"
      using d by (simp add: on_task_def)
    from run_schedule_on_task [OF this e refl r]
    have inv: "\<forall>wk\<in>set ws'. on_task ?i t db' wk" and len: "length ws' = 2"
      by simp_all
    from len obtain wk where wk: "wk \<in> set ws'"
      by (cases ws') auto
    with f r have "finished (wk_stage wk)"
      by (simp add: list_all_iff)
    with inv wk have "has_analysis db' ?i"
      by (cases "wk_stage wk") (auto simp: on_task_def)
    then have "1 \<le> length (analyses_for db' ?i)"
      by (cases "analyses_for db' ?i") (simp_all add: has_analysis_def)
    moreover have "unique_analyses db'"
      using u [of sched2 ?ws] r by simp
    then have "length (analyses_for db' ?i) \<le> 1"
      by (rule unique_at_most_one)
    ultimately show ?thesis using r by simp
  qed
  have prog: "list_all (\<lambda>wk. finished (wk_stage wk))
            (snd (run_schedule sched2
               (db, [\<lparr>wk_world = w1, wk_stage = Dequeued t\<rparr>,
                     \<lparr>wk_world = w2, wk_stage = Dequeued t\<rparr>])))"
    if "2 \<le> count_list sched2 0" "2 \<le> count_list sched2 1"
  proof (rule schedule_progress)
    show "\<forall>k<length [\<lparr>wk_world = w1, wk_stage = Dequeued t\<rparr>,
                     \<lparr>wk_world = w2, wk_stage = Dequeued t\<rparr>]. 2 \<le> count_list sched2 k"
      using that by (auto simp: less_Suc_eq)
  qed
  show ?thesis
    using u [of sched ws] unique_at_most_one [OF u [of sched ws], of i] skip_existing dup prog
    by blast
qed

lemma dependable_world0: "dependable world0"
  by (simp add: dependable_def world0_def)

lemma race0:
  "run_schedule [0, 1, 0, 1]
     (db0, [\<lparr>wk_world = world0, wk_stage = Dequeued (new_task event500)\<rparr>,
            \<lparr>wk_world = world0, wk_stage = Dequeued (new_task event500)\<rparr>]) =
   (db0\<lparr>db_analyses := [record0]\<rparr>,
    [\<lparr>wk_world = world0, wk_stage = Finished AckSuccess\<rparr>,
     \<lparr>wk_world = world0, wk_stage = Finished AckNoop\<rparr>])"
  by (simp add: run_schedule_def pool_step_def prepare_def persist_def analyse_event_def
      lookup_event_def lookup_repo_def has_analysis_def analyses_for_def decide_def
      fetch_snippets_def frames_to_fetch_def frames_of_def List.map_filter_def
      db0_def world0_def event500_def event404_def new_task_def record0_def reply0_def
      frame0_def repo0_def)

theorem one_analysis_per_event_witness:
  "unique_analyses db0 \<and>
   list_all (\<lambda>wk. finished (wk_stage wk))
     (snd (run_schedule [0, 1, 0, 1]
        (db0, [\<lparr>wk_world = world0, wk_stage = Dequeued (new_task event500)\<rparr>,
               \<lparr>wk_world = world0, wk_stage = Dequeued (new_task event500)\<rparr>]))) \<and>
   length (analyses_for
     (fst (run_schedule [0, 1, 0, 1]
        (db0, [\<lparr>wk_world = world0, wk_stage = Dequeued (new_task event500)\<rparr>,
               \<lparr>wk_world = world0, wk_stage = Dequeued (new_task event500)\<rparr>]))) 7) = 1"
proof -
  have u: "unique_analyses db0"
    by (simp add: unique_analyses_def db0_def)
  have e: "lookup_event db0 (task_event_id (new_task event500)) = Some event500"
    by (simp add: lookup_event_def db0_def new_task_def event500_def)
  have d: "decide event500"
    by (simp add: decide_def event500_def)
  have c: "2 \<le> count_list [0, 1, 0, 1] (0::nat)" "2 \<le> count_list [0, 1, 0, 1] (1::nat)"
    by simp_all
  have i: "task_event_id (new_task event500) = 7"
    by (simp add: new_task_def event500_def)
  show ?thesis
    using one_analysis_per_event [OF u, where t="new_task event500" and event=event500
        and ?w1.0=world0 and ?w2.0=world0 and ?sched2.0="[0, 1, 0, 1]"]
      dependable_world0 e d c u
    unfolding i by blast
qed

lemma prepare_meets_threshold:
  assumes "prepare w db t = Inr r"
  shows "\<exists>event. lookup_event db (error_event_id r) = Some event \<and> decide event"
proof -
  from assms obtain event where
    e: "lookup_event db (task_event_id t) = Some event" "decide event"
      "analyse_event w db event = Inr r"
    by (auto simp: prepare_def split: option.splits if_splits)
  then have "error_event_id r = task_event_id t"
    using analyse_event_id lookup_event_id by metis
  with e show ?thesis by simp
qed

lemma worker_step_below:
  assumes "lookup_event db i = Some event" "\<not> decide event" "\<not> prepared_for i st"
    and "worker_step w db st = (db', st')"
  shows "analyses_for db' i = analyses_for db i \<and> \<not> prepared_for i st'"
proof (cases st)
  case (Dequeued t)
  show ?thesis
  proof (cases "prepare w db t")
    case (Inl out)
    with assms(4) Dequeued show ?thesis by auto
  next
    case (Inr r)
    from prepare_meets_threshold [OF Inr] assms(1,2) have "error_event_id r \<noteq> i"
      by auto
    with assms(4) Dequeued Inr show ?thesis by auto
  qed
next
  case (Prepared r)
  with assms(3) have "error_event_id r \<noteq> i" by simp
  with assms(4) Prepared show ?thesis
    by (auto simp: persist_def analyses_for_def split: if_splits)
next
  case (Finished out)
  with assms(4) show ?thesis by auto
qed

lemma pool_step_below:
  assumes "lookup_event db i = Some event" "\<not> decide event"
    and "\<forall>wk\<in>set ws. \<not> prepared_for i (wk_stage wk)"
    and "pool_step k (db, ws) = (db', ws')"
  shows "analyses_for db' i = analyses_for db i \<and> lookup_event db' i = Some event \<and>
         (\<forall>wk\<in>set ws'. \<not> prepared_for i (wk_stage wk))"
proof (cases "k < length ws")
  case False
  with assms show ?thesis by (auto simp: pool_step_def)
next
  case True
  obtain st where st: "worker_step (wk_world (ws ! k)) db (wk_stage (ws ! k)) = (db', st)"
    and ws': "ws' = ws[k := (ws ! k)\<lparr>wk_stage := st\<rparr>]"
    using assms(4) True by (auto simp: pool_step_def split: prod.splits)
  have "\<not> prepared_for i (wk_stage (ws ! k))"
    using assms(3) True by simp
  from worker_step_below [OF assms(1,2) this st]
  have a: "analyses_for db' i = analyses_for db i" and n: "\<not> prepared_for i st"
    by simp_all
  have "\<not> prepared_for i (wk_stage wk)" if "wk \<in> set ws'" for wk
  proof -
    from that have "wk = (ws ! k)\<lparr>wk_stage := st\<rparr> \<or> wk \<in> set ws"
      unfolding ws' by (meson insertE set_update_subset_insert subsetD)
    then show ?thesis using n assms(3) by auto
  qed
  moreover have "lookup_event db' i = Some event"
    using worker_step_events [OF st] assms(1) by (simp add: lookup_event_def)
  ultimately show ?thesis using a by simp
qed

lemma run_schedule_below:
  assumes "lookup_event db i = Some event" "\<not> decide event"
    and "\<forall>wk\<in>set ws. \<not> prepared_for i (wk_stage wk)"
  shows "analyses_for (fst (run_schedule sched (db, ws))) i = analyses_for db i"
  using assms
proof (induction sched arbitrary: db ws)
  case Nil
  then show ?case by (simp add: run_schedule_def)
next
  case (Cons k sched)
  obtain db1 ws1 where s1: "pool_step k (db, ws) = (db1, ws1)"
    by (cases "pool_step k (db, ws)")
  from pool_step_below [OF Cons.prems s1]
  have 1: "analyses_for db1 i = analyses_for db i" "lookup_event db1 i = Some event"
    "\<forall>wk\<in>set ws1. \<not> prepared_for i (wk_stage wk)"
    by simp_all
  have "run_schedule (k # sched) (db, ws) = run_schedule sched (db1, ws1)"
    using s1 by (simp add: run_schedule_def)
  with Cons.IH [OF 1(2) Cons.prems(2) 1(3)] 1(1) show ?case by simp
qed

lemma enqueue_failure_swallowed:
  "decide event \<Longrightarrow>
   onErrorStored Unavailable event p = p\<lparr>pl_log := pl_log p @ [''enqueue failed'']\<rparr>"
  by (simp add: onErrorStored_def)

text \<open>
  Claim C2. The Trigger Policy decides to enqueue exactly when the status code is not null
  and at least 500, and with a broker that accepts the task the queue gains the task of
  the event in exactly that case (a broker failure is swallowed, see
  \<open>enqueue_failure_swallowed\<close>). For an event whose status code is null or below 500,
  whatever the broker does, no TaskRecord is created; and whatever tasks are delivered to
  whatever workers, under any interleaving, no AnalysisRecord of the event is produced:
  the worker's threshold re-check stops even a stale task.
\<close>

theorem trigger_threshold:
  "(decide event \<longleftrightarrow> (\<exists>c. ee_status_code event = Some c \<and> 500 \<le> c)) \<and>
   pl_queue (onErrorStored Accepted event p) =
     (if \<exists>c. ee_status_code event = Some c \<and> 500 \<le> c
      then pl_queue p @ [new_task event] else pl_queue p) \<and>
   ((\<forall>c. ee_status_code event = Some c \<longrightarrow> c < 500) \<longrightarrow>
      onErrorStored broker event p = p \<and>
      pl_queue (ingest broker event p) = pl_queue p \<and>
      (lookup_event db (ee_id event) = Some event \<and>
       list_all (\<lambda>wk. \<not> prepared_for (ee_id event) (wk_stage wk)) ws \<longrightarrow>
         analyses_for (fst (run_schedule sched (db, ws))) (ee_id event) =
           analyses_for db (ee_id event)))"
proof -
  have d: "decide event \<longleftrightarrow> (\<exists>c. ee_status_code event = Some c \<and> 500 \<le> c)"
    by (auto simp: decide_def split: option.splits)
  have q: "pl_queue (onErrorStored Accepted event p) =
     (if \<exists>c. ee_status_code event = Some c \<and> 500 \<le> c
      then pl_queue p @ [new_task event] else pl_queue p)"
    unfolding d [symmetric] by (simp add: onErrorStored_def)
  have b: "onErrorStored broker event p = p \<and>
      pl_queue (ingest broker event p) = pl_queue p \<and>
      (lookup_event db (ee_id event) = Some event \<and>
       list_all (\<lambda>wk. \<not> prepared_for (ee_id event) (wk_stage wk)) ws \<longrightarrow>
         analyses_for (fst (run_schedule sched (db, ws))) (ee_id event) =
           analyses_for db (ee_id event))"
    if "\<forall>c. ee_status_code event = Some c \<longrightarrow> c < 500"
  proof -
    from that have nd: "\<not> decide event"
      unfolding d by auto
    then have "onErrorStored broker event p = p"
      and "pl_queue (ingest broker event p) = pl_queue p"
      by (simp_all add: onErrorStored_def ingest_def store_event_def)
    moreover have "analyses_for (fst (run_schedule sched (db, ws))) (ee_id event) =
           analyses_for db (ee_id event)"
      if "lookup_event db (ee_id event) = Some event"
        "list_all (\<lambda>wk. \<not> prepared_for (ee_id event) (wk_stage wk)) ws"
      using that nd by (intro run_schedule_below) (auto simp: list_all_iff)
    ultimately show ?thesis by blast
  qed
  from d q b show ?thesis by blast
qed

theorem trigger_threshold_witness:
  "pl_queue (onErrorStored Accepted event500 pipeline0) = [new_task event500] \<and>
   onErrorStored Accepted event404 pipeline0 = pipeline0 \<and>
   analyses_for
     (fst (run_schedule [0, 1, 0, 1]
        (db0, [\<lparr>wk_world = world0, wk_stage = Dequeued (new_task event404)\<rparr>,
               \<lparr>wk_world = world0, wk_stage = Dequeued (new_task event404)\<rparr>]))) 8 = []"
proof -
  have 5: "\<exists>c. ee_status_code event500 = Some c \<and> 500 \<le> c"
    by (simp add: event500_def)
  have 4: "\<forall>c. ee_status_code event404 = Some c \<longrightarrow> c < 500"
    by (simp add: event404_def event500_def)
  have l: "lookup_event db0 (ee_id event404) = Some event404"
    by (simp add: lookup_event_def db0_def event404_def event500_def)
  have i: "ee_id event404 = 8"
    by (simp add: event404_def)
  have n: "analyses_for db0 8 = []"
    by (simp add: analyses_for_def db0_def)
  have w: "list_all (\<lambda>wk. \<not> prepared_for (ee_id event404) (wk_stage wk))
     [\<lparr>wk_world = world0, wk_stage = Dequeued (new_task event404)\<rparr>,
      \<lparr>wk_world = world0, wk_stage = Dequeued (new_task event404)\<rparr>]"
    by simp
  have a: "pl_queue (onErrorStored Accepted event500 pipeline0) = [new_task event500]"
    using trigger_threshold [of event500 pipeline0] 5 by (simp add: pipeline0_def)
  have b: "onErrorStored Accepted event404 pipeline0 = pipeline0 \<and>
    analyses_for
     (fst (run_schedule [0, 1, 0, 1]
        (db0, [\<lparr>wk_world = world0, wk_stage = Dequeued (new_task event404)\<rparr>,
               \<lparr>wk_world = world0, wk_stage = Dequeued (new_task event404)\<rparr>]))) 8 = []"
    using trigger_threshold [of event404 pipeline0 Accepted db0 _ "[0, 1, 0, 1]"] 4 l w
    unfolding i n by blast
  from a b show ?thesis by blast
qed

lemma map_filter_empty_iff:
  "List.map_filter g xs = [] \<longleftrightarrow> (\<forall>x\<in>set xs. g x = None)"
  by (induction xs) (auto simp: List.map_filter_def)

lemma snippets_iff: "fetch_snippets w db event \<noteq> [] \<longleftrightarrow> fetch_succeeded w db event"
proof -
  have "snippet_of x \<noteq> None \<longleftrightarrow> (case x of Snippet text \<Rightarrow> True | _ \<Rightarrow> False)" for x
    by (cases x) simp_all
  then show ?thesis
    unfolding fetch_snippets_def fetch_succeeded_def map_filter_empty_iff list_ex_iff
    by (auto split: prod.splits)
qed

lemma analyse_event_source:
  "analyse_event w db event = Inr r \<Longrightarrow> has_source_code r = fetch_succeeded w db event"
  by (auto simp: analyse_event_def Let_def snippets_iff split: sum.splits)

lemma analyse_event_fails: "analyse_event w db event = Inl out \<Longrightarrow> out = Failed"
  by (auto simp: analyse_event_def Let_def split: sum.splits)

lemma find_append_new:
  "\<forall>x\<in>set xs. \<not> P x \<Longrightarrow> P y \<Longrightarrow> find P (xs @ [y]) = Some y"
  by (induction xs) auto

text \<open>
  Claim C7. When an attempt on the task of an event succeeds, the read surface gives the
  AnalysisRecord that the attempt has written, and its \<open>has_source_code\<close> field is true
  exactly when the fetch of at least one frame's snippet has given a snippet in that
  attempt.
\<close>

theorem has_source_code_iff_snippet_fetched:
  assumes "lookup_event db (task_event_id t) = Some event"
    and "run_attempt w db t = (db', AckSuccess)"
  shows "\<exists>r. getAnalysis db' (ee_id event) = Some r \<and>
             db_analyses db' = db_analyses db @ [r] \<and>
             (has_source_code r \<longleftrightarrow>
                (\<exists>(rc, f)\<in>set (frames_to_fetch w db event).
                   \<exists>text. fetchSnippet w rc f = Snippet text))"
proof -
  have id: "ee_id event = task_event_id t"
    using assms(1) by (rule lookup_event_id)
  from assms obtain r where
    a: "analyse_event w db event = Inr r" and p: "persist w db r = (db', AckSuccess)"
    by (auto simp: run_attempt_def prepare_def split: sum.splits if_splits
        dest: analyse_event_fails)
  have rid: "error_event_id r = ee_id event"
    using a by (rule analyse_event_id)
  from p have n: "\<not> has_analysis db (ee_id event)"
    and d: "db_analyses db' = db_analyses db @ [r]"
    by (auto simp: persist_def rid split: if_splits)
  from n have "\<forall>x\<in>set (db_analyses db). \<not> error_event_id x = ee_id event"
    by (metis has_analysis_iff image_eqI)
  then have g: "getAnalysis db' (ee_id event) = Some r"
    unfolding getAnalysis_def d using rid by (intro find_append_new) simp_all
  have pt: "(case fetchSnippet w rc f of Snippet text \<Rightarrow> True | _ \<Rightarrow> False) \<longleftrightarrow>
      (\<exists>text. fetchSnippet w rc f = Snippet text)" for rc f
    by (cases "fetchSnippet w rc f") simp_all
  have "fetch_succeeded w db event \<longleftrightarrow>
     (\<exists>(rc, f)\<in>set (frames_to_fetch w db event). \<exists>text. fetchSnippet w rc f = Snippet text)"
    unfolding fetch_succeeded_def list_ex_iff
    by (simp add: pt)
  with analyse_event_source [OF a] g d show ?thesis by blast
qed

lemma attempt0:
  "run_attempt world0 db0 (new_task event500) = (db0\<lparr>db_analyses := [record0]\<rparr>, AckSuccess)"
  by (simp add: run_attempt_def prepare_def persist_def analyse_event_def
      lookup_event_def lookup_repo_def has_analysis_def analyses_for_def decide_def
      fetch_snippets_def frames_to_fetch_def frames_of_def List.map_filter_def
      db0_def world0_def event500_def event404_def new_task_def record0_def reply0_def
      frame0_def repo0_def)

lemma attempt_denied:
  "run_attempt world_denied db0 (new_task event500) =
     (db0\<lparr>db_analyses := [record0\<lparr>has_source_code := False\<rparr>]\<rparr>, AckSuccess)"
  by (simp add: run_attempt_def prepare_def persist_def analyse_event_def
      lookup_event_def lookup_repo_def has_analysis_def analyses_for_def decide_def
      fetch_snippets_def frames_to_fetch_def frames_of_def List.map_filter_def
      db0_def world0_def event500_def event404_def new_task_def record0_def reply0_def
      frame0_def repo0_def world_denied_def)

theorem has_source_code_iff_snippet_fetched_witness:
  "(\<exists>r. getAnalysis (db0\<lparr>db_analyses := [record0]\<rparr>) 7 = Some r \<and> has_source_code r) \<and>
   (\<exists>r. getAnalysis (db0\<lparr>db_analyses := [record0\<lparr>has_source_code := False\<rparr>]\<rparr>) 7 = Some r \<and>
        \<not> has_source_code r)"
proof -
  have l: "lookup_event db0 (task_event_id (new_task event500)) = Some event500"
    by (simp add: lookup_event_def db0_def new_task_def event500_def)
  have i: "ee_id event500 = 7" by (simp add: event500_def)
  have f: "frames_to_fetch world0 db0 event500 = [(repo0, frame0)]"
    "frames_to_fetch world_denied db0 event500 = [(repo0, frame0)]"
    by (simp_all add: frames_to_fetch_def lookup_repo_def frames_of_def db0_def world0_def
        world_denied_def event500_def)
  have s: "fetchSnippet world0 repo0 frame0 = Snippet ''function f() {}''"
    "fetchSnippet world_denied repo0 frame0 = AccessDenied"
    by (simp_all add: world0_def world_denied_def)
  from has_source_code_iff_snippet_fetched [OF l attempt0]
  have 1: "\<exists>r. getAnalysis (db0\<lparr>db_analyses := [record0]\<rparr>) 7 = Some r \<and> has_source_code r"
    unfolding i f by (simp add: s)
  from has_source_code_iff_snippet_fetched [OF l attempt_denied]
  have 2: "\<exists>r. getAnalysis (db0\<lparr>db_analyses := [record0\<lparr>has_source_code := False\<rparr>]\<rparr>) 7 = Some r \<and>
        \<not> has_source_code r"
    unfolding i f by (simp add: s)
  from 1 2 show ?thesis by blast
qed

















lemma resolved_stays: "foldl wait_step Resolved evs = Resolved"
  by (induction evs) simp_all

lemma waiting_resolves:
  "0 < d \<Longrightarrow>
   foldl wait_step (Waiting d name) evs = Resolved \<longleftrightarrow>
     Dispatched name \<in> set evs \<or> d \<le> elapsed evs"
proof (induction evs arbitrary: d)
  case Nil
  then show ?case by simp
next
  case (Cons e evs)
  show ?case
  proof (cases e)
    case (Elapsed n)
    then show ?thesis
      using Cons.IH [of "d - n"] Cons.prems by (auto simp: resolved_stays)
  next
    case (Dispatched x)
    then show ?thesis
      using Cons.IH [of d] Cons.prems by (auto simp: resolved_stays)
  qed
qed

text \<open>
  Claim C10. The error-detail page looks for the token under \<^verbatim>\<open>stackwise_api_token\<close>,
  the API client stores it under \<^verbatim>\<open>debug_ai_api_token\<close>. So when nothing else has
  written the page's key, after any token has been stored by \<^verbatim>\<open>setApiToken\<close> the API
  client finds it but the page's check does not: the page waits, and the fetch is issued
  only once \<^verbatim>\<open>user-synced\<close> has been dispatched or 2000 milliseconds have passed.
\<close>

theorem detail_page_misses_stored_token:
  assumes "localStorage ''stackwise_api_token'' = None"
  shows "getApiToken True (setApiToken True token localStorage) = Some token \<and>
         ErrorDetailPage_wait (setApiToken True token localStorage) =
           Waiting 2000 ''user-synced'' \<and>
         (fetch_issued (setApiToken True token localStorage) evs \<longleftrightarrow>
            Dispatched ''user-synced'' \<in> set evs \<or> 2000 \<le> elapsed evs)"
proof -
  have w: "ErrorDetailPage_wait (setApiToken True token localStorage) =
           Waiting 2000 ''user-synced''"
    using assms
    by (simp add: ErrorDetailPage_wait_def wait_for_token_def setApiToken_def API_TOKEN_KEY_def)
  show ?thesis
    unfolding fetch_issued_def w
    by (simp add: waiting_resolves getApiToken_def setApiToken_def)
qed

theorem detail_page_misses_stored_token_witness:
  "getApiToken True (setApiToken True ''secret'' Map.empty) = Some ''secret'' \<and>
   \<not> fetch_issued (setApiToken True ''secret'' Map.empty) [Elapsed 1500] \<and>
   fetch_issued (setApiToken True ''secret'' Map.empty) [Elapsed 1500, Elapsed 500] \<and>
   fetch_issued (setApiToken True ''secret'' Map.empty) [Elapsed 10, Dispatched ''user-synced'']"
proof -
  have e: "(Map.empty :: storage) ''stackwise_api_token'' = None" by simp
  show ?thesis
    using detail_page_misses_stored_token [OF e, of "''secret''" "[Elapsed 1500]"]
      detail_page_misses_stored_token [OF e, of "''secret''" "[Elapsed 1500, Elapsed 500]"]
      detail_page_misses_stored_token [OF e, of "''secret''" "[Elapsed 10, Dispatched ''user-synced'']"]
    by simp
qed

text \<open>
  With the key of the API client, as in the snapshot of the page under
  \<^verbatim>\<open>frontend/app/projects/[projectId]/errors/[errorId]/page.tsx\<close>, the check finds a
  stored token at once.
\<close>

lemma same_key_finds_token:
  "token \<noteq> [] \<Longrightarrow> wait_for_token API_TOKEN_KEY (setApiToken True token localStorage) = Resolved"
  by (simp add: wait_for_token_def setApiToken_def)

end
